theory Spec2Isabelle
  imports Main "HOL-Library.AList" "HOL-Library.Multiset"
begin

section \<open>Data model\<close>

text \<open>
  The crossword generator of \<^verbatim>\<open>generate.py\<close> works on a \<^verbatim>\<open>Crossword\<close> object of the
  module \<^verbatim>\<open>crossword\<close>. A \<^verbatim>\<open>Variable\<close> is a slot of the grid: start row, start
  column, direction and length; two variables are equal when the four attributes are.
\<close>

datatype direction = ACROSS | DOWN

record variable =
  var_i :: nat
  var_j :: nat
  var_direction :: direction
  var_length :: nat

text \<open>
  The grid model is read only. Its parts are taken as they are used by the solver:
  \<^item> \<open>variables\<close>: the set \<^verbatim>\<open>crossword.variables\<close>, as the list of its elements in
    iteration order;
  \<^item> \<open>words\<close>: the set \<^verbatim>\<open>crossword.words\<close>, in iteration order;
  \<^item> \<open>overlaps\<close>: the dictionary \<^verbatim>\<open>crossword.overlaps\<close>; a key that is absent is
    \<open>None\<close>, a key whose value is Python's \<^verbatim>\<open>None\<close> is \<open>Some None\<close>, and a key whose
    value is the pair \<^verbatim>\<open>(a, b)\<close> is \<open>Some (Some (a, b))\<close>;
  \<^item> \<open>neighbors\<close>: the method \<^verbatim>\<open>crossword.neighbors(var)\<close>, a set, again as the list
    of its elements in iteration order.
\<close>

record crossword =
  variables :: "variable list"
  words :: "string list"
  overlaps :: "variable \<times> variable \<Rightarrow> (nat \<times> nat) option option"
  neighbors :: "variable \<Rightarrow> variable list"

text \<open>The exceptions that the solver's own statements can raise.\<close>

datatype error = KeyError | IndexError | TypeError | UnboundLocalError

text \<open>
  \<^verbatim>\<open>self.domains\<close> is a dictionary from variables to sets of words. It is an association
  list (a Python dictionary keeps insertion order); each set is the list of its words in
  iteration order. An assignment is a dictionary from variables to words.
\<close>

type_synonym domains = "(variable \<times> string list) list"
type_synonym assignment = "(variable \<times> string) list"
type_synonym arc = "variable \<times> variable"

text \<open>\<^verbatim>\<open>self.domains[var]\<close>: a missing key raises \<^verbatim>\<open>KeyError\<close>.\<close>

definition domains_get :: "domains \<Rightarrow> variable \<Rightarrow> error + string list" where
  "domains_get d var = (case map_of d var of None \<Rightarrow> Inl KeyError | Some ws \<Rightarrow> Inr ws)"

text \<open>\<^verbatim>\<open>self.crossword.overlaps[x, y]\<close>: a missing key raises \<^verbatim>\<open>KeyError\<close>.\<close>

definition overlaps_get :: "crossword \<Rightarrow> variable \<Rightarrow> variable \<Rightarrow> error + (nat \<times> nat) option" where
  "overlaps_get c x y = (case overlaps c (x, y) of None \<Rightarrow> Inl KeyError | Some ov \<Rightarrow> Inr ov)"

text \<open>
  \<^verbatim>\<open>__init__\<close>: every variable starts with a copy of the whole word list.
\<close>

definition init_domains :: "crossword \<Rightarrow> domains" where
  "init_domains c = map (\<lambda>var. (var, words c)) (variables c)"

section \<open>Node consistency\<close>

text \<open>
  \<^verbatim>\<open>enforce_node_consistency\<close>: for each variable, the words of the wrong length are
  collected in \<^verbatim>\<open>to_remove\<close> and then removed one by one. The words removed are taken
  from the set itself, so \<^verbatim>\<open>set.remove\<close> finds each of them.
\<close>

definition remove_words :: "string list \<Rightarrow> string list \<Rightarrow> string list" where
  "remove_words to_remove ws = fold remove1 to_remove ws"

fun enforce_node_consistency_loop :: "variable list \<Rightarrow> domains \<Rightarrow> error + domains" where
  "enforce_node_consistency_loop [] d = Inr d"
| "enforce_node_consistency_loop (var # vars) d =
     (case domains_get d var of
        Inl e \<Rightarrow> Inl e
      | Inr ws \<Rightarrow>
          (let to_remove = filter (\<lambda>word. \<not> length word = var_length var) ws
           in enforce_node_consistency_loop vars
                (AList.update var (remove_words to_remove ws) d)))"

definition enforce_node_consistency :: "crossword \<Rightarrow> domains \<Rightarrow> error + domains" where
  "enforce_node_consistency c d = enforce_node_consistency_loop (variables c) d"

section \<open>Arc consistency\<close>

text \<open>
  \<^verbatim>\<open>revise(x, y)\<close>. The inner loop over \<^verbatim>\<open>self.domains[y]\<close> has no \<^verbatim>\<open>break\<close>: it reads
  character \<^verbatim>\<open>overlap[1]\<close> of every word of \<open>y\<close>, and raises \<^verbatim>\<open>IndexError\<close> on a word
  that is too short.
\<close>

fun revise_inner :: "nat \<Rightarrow> char \<Rightarrow> string list \<Rightarrow> bool \<Rightarrow> error + bool" where
  "revise_inner b c1 [] overlapping = Inr overlapping"
| "revise_inner b c1 (w # ws) overlapping =
     (if b < length w
      then revise_inner b c1 ws (if w ! b = c1 then True else overlapping)
      else Inl IndexError)"

fun revise_outer ::
  "domains \<Rightarrow> variable \<Rightarrow> nat \<times> nat \<Rightarrow> string list \<Rightarrow> bool \<times> string list \<Rightarrow>
   error + (bool \<times> string list)" where
  "revise_outer d y ov [] acc = Inr acc"
| "revise_outer d y ov (word # rest) (revision, to_remove) =
     (if fst ov < length word
      then (case domains_get d y of
              Inl e \<Rightarrow> Inl e
            | Inr dy \<Rightarrow>
                (case revise_inner (snd ov) (word ! fst ov) dy False of
                   Inl e \<Rightarrow> Inl e
                 | Inr overlapping \<Rightarrow>
                     (if \<not> overlapping
                      then revise_outer d y ov rest (True, to_remove @ [word])
                      else revise_outer d y ov rest (revision, to_remove))))
      else Inl IndexError)"

definition revise :: "crossword \<Rightarrow> variable \<Rightarrow> variable \<Rightarrow> domains \<Rightarrow> error + (bool \<times> domains)" where
  "revise c x y d =
     (if x = y then Inr (False, d)
      else (case overlaps_get c x y of
              Inl e \<Rightarrow> Inl e
            | Inr None \<Rightarrow> Inr (False, d)
            | Inr (Some overlap) \<Rightarrow>
                (case domains_get d x of
                   Inl e \<Rightarrow> Inl e
                 | Inr dx \<Rightarrow>
                     (case revise_outer d y overlap dx (False, []) of
                        Inl e \<Rightarrow> Inl e
                      | Inr (revision, to_remove) \<Rightarrow>
                          Inr (revision, AList.update x (remove_words to_remove dx) d)))))"

text \<open>
  \<^verbatim>\<open>ac3\<close>, the initial worklist when \<^verbatim>\<open>arcs is None\<close>: the arc \<^verbatim>\<open>(var, neighbor)\<close> is
  appended unless the reversed arc \<^verbatim>\<open>(neighbor, var)\<close> is already in the list.
\<close>

definition initial_arcs :: "crossword \<Rightarrow> arc list" where
  "initial_arcs c =
     fold (\<lambda>var arcs.
             fold (\<lambda>neighbor arcs.
                     if (neighbor, var) \<notin> set arcs then arcs @ [(var, neighbor)] else arcs)
                  (neighbors c var) arcs)
          (variables c) []"

text \<open>
  After the initialising loop the local name \<^verbatim>\<open>var\<close> is bound to the last variable
  iterated; it is unbound when the loop did not run (no variables, or \<^verbatim>\<open>arcs\<close> given).
\<close>

definition loop_var :: "crossword \<Rightarrow> arc list option \<Rightarrow> variable option" where
  "loop_var c arcs =
     (case arcs of
        None \<Rightarrow> (if variables c = [] then None else Some (last (variables c)))
      | Some _ \<Rightarrow> None)"

text \<open>
  The test \<^verbatim>\<open>self.domains[x] == 0\<close> compares a set with the integer zero; in Python a
  set is never equal to an integer.
\<close>

definition set_equals_zero :: "string list \<Rightarrow> bool" where
  "set_equals_zero ws = False"

text \<open>
  The arcs appended after a revision of \<^verbatim>\<open>(x, y)\<close>: the loop runs over
  \<^verbatim>\<open>self.crossword.neighbors(var)\<close>, with the \<^verbatim>\<open>var\<close> left by the initialising loop.
\<close>

definition enqueue_arcs :: "variable \<Rightarrow> variable \<Rightarrow> variable list \<Rightarrow> arc list \<Rightarrow> arc list" where
  "enqueue_arcs x y ns arcs =
     fold (\<lambda>neighbor arcs.
             if neighbor \<noteq> y \<and> (x, neighbor) \<notin> set arcs then arcs @ [(x, neighbor)] else arcs)
          ns arcs"

text \<open>
  One iteration of the \<^verbatim>\<open>while\<close> loop of \<^verbatim>\<open>ac3\<close> on the popped arc \<open>(x, y)\<close> and the rest
  of the worklist: \<open>Inr (Some False, _, _)\<close> is \<^verbatim>\<open>return False\<close>, and \<open>Inr (None, arcs', d')\<close>
  goes on with the next iteration.
\<close>

definition ac3_step ::
  "crossword \<Rightarrow> variable option \<Rightarrow> arc \<Rightarrow> arc list \<Rightarrow> domains \<Rightarrow>
   error + (bool option \<times> arc list \<times> domains)" where
  "ac3_step c var xy arcs d =
     (case revise c (fst xy) (snd xy) d of
        Inl e \<Rightarrow> Inl e
      | Inr (revised, d') \<Rightarrow>
          (if revised
           then (case domains_get d' (fst xy) of
                   Inl e \<Rightarrow> Inl e
                 | Inr dx \<Rightarrow>
                     (if set_equals_zero dx then Inr (Some False, arcs, d')
                      else (case var of
                              None \<Rightarrow> Inl UnboundLocalError
                            | Some v \<Rightarrow>
                                Inr (None, enqueue_arcs (fst xy) (snd xy) (neighbors c v) arcs, d'))))
           else Inr (None, arcs, d')))"

text \<open>The total number of words in all domains; a revision lowers it.\<close>

definition domains_size :: "domains \<Rightarrow> nat" where
  "domains_size d = sum_list (map (\<lambda>p. length (snd p)) d)"

text \<open>
  A word of \<open>x\<close> is supported in \<open>y\<close> when some word of the domain of \<open>y\<close> has, at the
  second overlap index, the character that the word has at the first.
\<close>

definition supported :: "domains \<Rightarrow> variable \<Rightarrow> nat \<times> nat \<Rightarrow> string \<Rightarrow> bool" where
  "supported d y ov word =
     (case map_of d y of None \<Rightarrow> False
      | Some dy \<Rightarrow> (\<exists>w \<in> set dy. w ! snd ov = word ! fst ov))"

subsection \<open>Facts about \<open>revise\<close> that the termination of \<open>ac3\<close> needs\<close>

lemma remove_words_filter_aux:
  "\<forall>w \<in> set pre. \<not> P w \<Longrightarrow>
   fold remove1 (filter P xs) (pre @ xs) = pre @ filter (\<lambda>w. \<not> P w) xs"
proof (induction xs arbitrary: pre)
  case Nil
  then show ?case by simp
next
  case (Cons x xs)
  show ?case
  proof (cases "P x")
    case True
    with Cons.prems have "x \<notin> set pre" by blast
    then have "remove1 x (pre @ x # xs) = pre @ xs"
      by (simp add: remove1_append)
    with True Cons.IH [OF Cons.prems] show ?thesis by simp
  next
    case False
    with Cons.prems have "\<forall>w \<in> set (pre @ [x]). \<not> P w" by simp
    from Cons.IH [OF this] False show ?thesis by simp
  qed
qed

lemma remove_words_filter:
  "remove_words (filter P ws) ws = filter (\<lambda>w. \<not> P w) ws"
  using remove_words_filter_aux [of "[]" P ws] by (simp add: remove_words_def)

lemma revise_inner_Inr:
  "revise_inner b c1 ws acc = Inr r \<Longrightarrow>
   r = (acc \<or> (\<exists>w \<in> set ws. w ! b = c1)) \<and> (\<forall>w \<in> set ws. b < length w)"
  by (induction ws arbitrary: acc) (auto split: if_splits)

lemma revise_outer_Inr:
  "revise_outer d y ov ws (revision, to_remove) = Inr (revision', to_remove') \<Longrightarrow>
   to_remove' = to_remove @ filter (\<lambda>w. \<not> supported d y ov w) ws \<and>
   revision' = (revision \<or> filter (\<lambda>w. \<not> supported d y ov w) ws \<noteq> [])"
proof (induction ws arbitrary: revision to_remove)
  case Nil
  then show ?case by simp
next
  case (Cons word rest)
  from Cons.prems obtain dy overlapping where
    dy: "map_of d y = Some dy" and
    inner: "revise_inner (snd ov) (word ! fst ov) dy False = Inr overlapping" and
    rest: "(if \<not> overlapping
            then revise_outer d y ov rest (True, to_remove @ [word])
            else revise_outer d y ov rest (revision, to_remove)) = Inr (revision', to_remove')"
    by (auto simp: domains_get_def split: if_splits sum.splits option.splits)
  from revise_inner_Inr [OF inner] dy
  have sup: "supported d y ov word = overlapping"
    by (simp add: supported_def)
  show ?case
  proof (cases overlapping)
    case True
    with rest have "revise_outer d y ov rest (revision, to_remove) = Inr (revision', to_remove')"
      by simp
    from Cons.IH [OF this] sup True show ?thesis by simp
  next
    case False
    with rest have "revise_outer d y ov rest (True, to_remove @ [word]) = Inr (revision', to_remove')"
      by simp
    from Cons.IH [OF this] sup False show ?thesis by simp
  qed
qed

lemma domains_size_update:
  "map_of d x = Some ws \<Longrightarrow>
   domains_size (AList.update x ws' d) + length ws = domains_size d + length ws'"
  by (induction d) (auto simp: domains_size_def)

lemma revise_Inr:
  assumes "revise c x y d = Inr (revision, d')"
  shows "(x = y \<or> overlaps c (x, y) = Some None) \<and> \<not> revision \<and> d' = d \<or>
         (\<exists>ov dx. x \<noteq> y \<and> overlaps c (x, y) = Some (Some ov) \<and> map_of d x = Some dx \<and>
            revision = (filter (\<lambda>w. \<not> supported d y ov w) dx \<noteq> []) \<and>
            d' = AList.update x (filter (supported d y ov) dx) d)"
proof (cases "x = y \<or> overlaps c (x, y) = Some None")
  case True
  with assms show ?thesis
    by (auto simp: revise_def overlaps_get_def split: if_splits)
next
  case False
  with assms obtain ov dx to_remove where
    ov: "overlaps c (x, y) = Some (Some ov)" and dx: "map_of d x = Some dx" and
    outer: "revise_outer d y ov dx (False, []) = Inr (revision, to_remove)" and
    d': "d' = AList.update x (remove_words to_remove dx) d"
    by (auto simp: revise_def overlaps_get_def domains_get_def
        split: if_splits sum.splits option.splits)
  from revise_outer_Inr [OF outer]
  have tr: "to_remove = filter (\<lambda>w. \<not> supported d y ov w) dx" and
    rv: "revision = (filter (\<lambda>w. \<not> supported d y ov w) dx \<noteq> [])"
    by simp_all
  from d' tr have "d' = AList.update x (filter (supported d y ov) dx) d"
    by (simp add: remove_words_filter)
  with False ov dx rv show ?thesis by blast
qed

lemma length_filter_less_iff:
  "filter (\<lambda>w. \<not> P w) xs \<noteq> [] \<Longrightarrow> length (filter P xs) < length xs"
  by (induction xs) (auto simp: less_Suc_eq_le split: if_splits)

lemma revise_result:
  assumes "revise c x y d = Inr (revision, d')"
  shows "(revision \<longrightarrow> domains_size d' < domains_size d) \<and> (\<not> revision \<longrightarrow> d' = d)"
proof -
  from revise_Inr [OF assms] show ?thesis
  proof (elim disjE exE conjE)
    fix ov dx
    assume dx: "map_of d x = Some dx"
      and rv: "revision = (filter (\<lambda>w. \<not> supported d y ov w) dx \<noteq> [])"
      and d': "d' = AList.update x (filter (supported d y ov) dx) d"
    have eq: "domains_size d' + length dx = domains_size d + length (filter (supported d y ov) dx)"
      unfolding d' by (rule domains_size_update [OF dx])
    show ?thesis
    proof (cases revision)
      case True
      with rv have "length (filter (supported d y ov) dx) < length dx"
        by (simp add: length_filter_less_iff)
      with eq True show ?thesis by simp
    next
      case False
      with rv have "filter (supported d y ov) dx = dx"
        by (simp add: filter_empty_conv filter_id_conv)
      with d' dx have "d' = d" by (simp add: update_triv)
      with False show ?thesis by simp
    qed
  qed simp_all
qed

lemma ac3_step_continue:
  assumes "ac3_step c var xy arcs d = Inr (None, arcs', d')"
  shows "domains_size d' < domains_size d \<or> d' = d \<and> arcs' = arcs"
  using assms
  by (auto simp: ac3_step_def split: sum.splits if_splits option.splits prod.splits
      dest!: revise_result)

text \<open>
  The \<^verbatim>\<open>while\<close> loop of \<^verbatim>\<open>ac3\<close>: \<^verbatim>\<open>arcs.pop(0)\<close> takes the head of the worklist. Each
  iteration either removes a word from a domain or leaves the domains as they are and
  shortens the worklist, so the loop terminates.
\<close>

function ac3_loop ::
  "crossword \<Rightarrow> variable option \<Rightarrow> arc list \<Rightarrow> domains \<Rightarrow> error + (bool \<times> domains)" where
  "ac3_loop c var [] d = Inr (True, d)"
| "ac3_loop c var (xy # arcs) d =
     (case ac3_step c var xy arcs d of
        Inl e \<Rightarrow> Inl e
      | Inr (Some b, arcs', d') \<Rightarrow> Inr (b, d')
      | Inr (None, arcs', d') \<Rightarrow> ac3_loop c var arcs' d')"
  by pat_completeness auto
termination
  apply (relation "measures [\<lambda>(c, var, arcs, d). domains_size d, \<lambda>(c, var, arcs, d). length arcs]")
   apply simp
  apply (auto dest!: ac3_step_continue)
  done

text \<open>\<^verbatim>\<open>ac3(arcs)\<close>, with \<open>None\<close> for the default argument.\<close>

definition ac3 :: "crossword \<Rightarrow> arc list option \<Rightarrow> domains \<Rightarrow> error + (bool \<times> domains)" where
  "ac3 c arcs d =
     ac3_loop c (loop_var c arcs) (case arcs of None \<Rightarrow> initial_arcs c | Some as \<Rightarrow> as) d"

section \<open>Backtracking search\<close>

text \<open>
  \<^verbatim>\<open>assignment_complete\<close>: every variable of the crossword is a key of the assignment.
\<close>

definition assignment_complete :: "crossword \<Rightarrow> assignment \<Rightarrow> bool" where
  "assignment_complete c a = list_all (\<lambda>var. map_of a var \<noteq> None) (variables c)"

text \<open>
  \<^verbatim>\<open>consistent\<close>. The outer loop runs over the entries of the dictionary in insertion
  order (a dictionary has no repeated key, so iterating its keys and looking each one up
  is iterating its entries); \<open>ws\<close> is the list \<^verbatim>\<open>words\<close> of the words seen so far. The
  inner loop runs over the neighbours of \<open>var\<close> that are assigned: the entry
  \<^verbatim>\<open>overlaps[var, n]\<close> is looked up (\<^verbatim>\<open>KeyError\<close>), subscripted (\<^verbatim>\<open>TypeError\<close> when it is
  \<^verbatim>\<open>None\<close>), and the two characters are read (\<^verbatim>\<open>IndexError\<close>), in this order.
\<close>

fun consistent_neighbors ::
  "crossword \<Rightarrow> assignment \<Rightarrow> variable \<Rightarrow> string \<Rightarrow> variable list \<Rightarrow> error + bool" where
  "consistent_neighbors c a var word [] = Inr True"
| "consistent_neighbors c a var word (n # ns) =
     (case map_of a n of
        None \<Rightarrow> consistent_neighbors c a var word ns
      | Some n_word \<Rightarrow>
          (case overlaps_get c var n of
             Inl e \<Rightarrow> Inl e
           | Inr None \<Rightarrow> Inl TypeError
           | Inr (Some ov) \<Rightarrow>
               (if fst ov < length word
                then (if snd ov < length n_word
                      then (if \<not> word ! fst ov = n_word ! snd ov then Inr False
                            else consistent_neighbors c a var word ns)
                      else Inl IndexError)
                else Inl IndexError)))"

fun consistent_loop ::
  "crossword \<Rightarrow> assignment \<Rightarrow> assignment \<Rightarrow> string list \<Rightarrow> error + bool" where
  "consistent_loop c a [] ws = Inr True"
| "consistent_loop c a ((var, word) # rest) ws =
     (if \<not> var_length var = length word then Inr False
      else if word \<in> set ws then Inr False
      else (case consistent_neighbors c a var word (neighbors c var) of
              Inl e \<Rightarrow> Inl e
            | Inr ok \<Rightarrow> (if ok then consistent_loop c a rest (ws @ [word]) else Inr False)))"

definition consistent :: "crossword \<Rightarrow> assignment \<Rightarrow> error + bool" where
  "consistent c a = consistent_loop c a a []"

text \<open>
  \<^verbatim>\<open>order_domain_values\<close>. For each word of the domain of \<open>var\<close> the three nested loops
  count, over the neighbours of \<open>var\<close> that are not in the assignment, the words of the
  neighbour's domain that differ from the word at the overlap indices. The innermost body
  subscripts \<^verbatim>\<open>overlap\<close>, so an overlap that is \<^verbatim>\<open>None\<close> raises \<^verbatim>\<open>TypeError\<close> only when the
  neighbour's domain has a word. Python's \<^verbatim>\<open>list.sort\<close> with a key is stable, as
  \<open>sort_key\<close> is.
\<close>

fun order_domain_values_words ::
  "(nat \<times> nat) option \<Rightarrow> string \<Rightarrow> string list \<Rightarrow> nat \<Rightarrow> error + nat" where
  "order_domain_values_words overlap word [] cnt = Inr cnt"
| "order_domain_values_words overlap word (n_word # rest) cnt =
     (case overlap of
        None \<Rightarrow> Inl TypeError
      | Some ov \<Rightarrow>
          (if fst ov < length word
           then (if snd ov < length n_word
                 then order_domain_values_words overlap word rest
                        (if \<not> word ! fst ov = n_word ! snd ov then cnt + 1 else cnt)
                 else Inl IndexError)
           else Inl IndexError))"

fun order_domain_values_neighbors ::
  "crossword \<Rightarrow> domains \<Rightarrow> assignment \<Rightarrow> variable \<Rightarrow> string \<Rightarrow> variable list \<Rightarrow> nat \<Rightarrow>
   error + nat" where
  "order_domain_values_neighbors c d a var word [] cnt = Inr cnt"
| "order_domain_values_neighbors c d a var word (n # ns) cnt =
     (if map_of a n = None
      then (case overlaps_get c var n of
              Inl e \<Rightarrow> Inl e
            | Inr overlap \<Rightarrow>
                (case domains_get d n of
                   Inl e \<Rightarrow> Inl e
                 | Inr dn \<Rightarrow>
                     (case order_domain_values_words overlap word dn cnt of
                        Inl e \<Rightarrow> Inl e
                      | Inr cnt' \<Rightarrow> order_domain_values_neighbors c d a var word ns cnt')))
      else order_domain_values_neighbors c d a var word ns cnt)"

fun order_domain_values_loop ::
  "crossword \<Rightarrow> domains \<Rightarrow> assignment \<Rightarrow> variable \<Rightarrow> string list \<Rightarrow> (string \<times> nat) list \<Rightarrow>
   error + (string \<times> nat) list" where
  "order_domain_values_loop c d a var [] result = Inr result"
| "order_domain_values_loop c d a var (word # rest) result =
     (case order_domain_values_neighbors c d a var word (neighbors c var) 0 of
        Inl e \<Rightarrow> Inl e
      | Inr cnt \<Rightarrow> order_domain_values_loop c d a var rest (result @ [(word, cnt)]))"

definition order_domain_values ::
  "crossword \<Rightarrow> domains \<Rightarrow> variable \<Rightarrow> assignment \<Rightarrow> error + string list" where
  "order_domain_values c d var a =
     (case domains_get d var of
        Inl e \<Rightarrow> Inl e
      | Inr dv \<Rightarrow>
          (case order_domain_values_loop c d a var dv [] of
             Inl e \<Rightarrow> Inl e
           | Inr result \<Rightarrow> Inr (map fst (sort_key snd result))))"

text \<open>
  \<^verbatim>\<open>select_unassigned_variable\<close>. The first loop keeps the smallest domain size seen,
  starting from 1000000, and the list of the unassigned variables with that size; the
  second loop keeps the first variable of that list with the smallest number of
  neighbours, again starting from 1000000, and \<^verbatim>\<open>None\<close> when no variable was below it.
\<close>

fun select_min_domain ::
  "domains \<Rightarrow> assignment \<Rightarrow> variable list \<Rightarrow> nat \<times> variable list \<Rightarrow>
   error + (nat \<times> variable list)" where
  "select_min_domain d a [] acc = Inr acc"
| "select_min_domain d a (var # vars) (min_size, min_domain_vars) =
     (if map_of a var = None
      then (case domains_get d var of
              Inl e \<Rightarrow> Inl e
            | Inr ws \<Rightarrow>
                (if length ws < min_size then select_min_domain d a vars (length ws, [var])
                 else if length ws = min_size
                 then select_min_domain d a vars (min_size, min_domain_vars @ [var])
                 else select_min_domain d a vars (min_size, min_domain_vars)))
      else select_min_domain d a vars (min_size, min_domain_vars))"

fun select_min_neighbors ::
  "crossword \<Rightarrow> variable list \<Rightarrow> nat \<times> variable option \<Rightarrow> variable option" where
  "select_min_neighbors c [] (min_n, min_var) = min_var"
| "select_min_neighbors c (var # vars) (min_n, min_var) =
     (if length (neighbors c var) < min_n
      then select_min_neighbors c vars (length (neighbors c var), Some var)
      else select_min_neighbors c vars (min_n, min_var))"

definition select_unassigned_variable ::
  "crossword \<Rightarrow> domains \<Rightarrow> assignment \<Rightarrow> error + variable option" where
  "select_unassigned_variable c d a =
     (case select_min_domain d a (variables c) (1000000, []) of
        Inl e \<Rightarrow> Inl e
      | Inr (min_size, min_domain_vars) \<Rightarrow>
          (if length min_domain_vars = 1 then Inr (Some (min_domain_vars ! 0))
           else Inr (select_min_neighbors c min_domain_vars (1000000, None))))"

text \<open>The number of words in the domain of a variable.\<close>

definition domain_size :: "domains \<Rightarrow> variable \<Rightarrow> nat" where
  "domain_size d v = (case map_of d v of None \<Rightarrow> 0 | Some ws \<Rightarrow> length ws)"

lemma select_min_domain_step:
  "map_of a var = None \<Longrightarrow> map_of d var = Some ws \<Longrightarrow>
   select_min_domain d a (var # vars) (m, acc) =
     select_min_domain d a vars
       (if length ws < m then (length ws, [var])
        else if length ws = m then (m, acc @ [var]) else (m, acc))"
  by (simp add: domains_get_def)

lemma select_min_domain_Inr:
  "select_min_domain d a vars (m, acc) = Inr (m', res) \<Longrightarrow>
   m' \<le> m \<and>
   (\<forall>v \<in> set vars. map_of a v = None \<longrightarrow> map_of d v \<noteq> None \<and> m' \<le> domain_size d v) \<and>
   res = (if m' < m then [] else acc) @
         filter (\<lambda>v. map_of a v = None \<and> domain_size d v = m') vars"
proof (induction vars arbitrary: m acc)
  case Nil
  then show ?case by simp
next
  case (Cons var vars)
  show ?case
  proof (cases "map_of a var = None")
    case False
    with Cons.prems have "select_min_domain d a vars (m, acc) = Inr (m', res)"
      by simp
    from Cons.IH [OF this] False show ?thesis by auto
  next
    case True
    with Cons.prems obtain ws where ws: "map_of d var = Some ws"
      by (auto simp: domains_get_def split: option.splits)
    have sz: "domain_size d var = length ws"
      using ws by (simp add: domain_size_def)
    note step = Cons.prems [unfolded select_min_domain_step [OF True ws]]
    consider (less) "length ws < m" | (eq) "length ws = m" | (greater) "m < length ws"
      by linarith
    then show ?thesis
    proof cases
      case less
      with step have "select_min_domain d a vars (length ws, [var]) = Inr (m', res)"
        by simp
      from Cons.IH [OF this] less True ws sz show ?thesis by auto
    next
      case eq
      with step have "select_min_domain d a vars (m, acc @ [var]) = Inr (m', res)"
        by simp
      from Cons.IH [OF this] eq True ws sz show ?thesis by auto
    next
      case greater
      with step have "select_min_domain d a vars (m, acc) = Inr (m', res)"
        by simp
      from Cons.IH [OF this] greater True ws sz show ?thesis by auto
    qed
  qed
qed

lemma select_min_neighbors_mem:
  "select_min_neighbors c vars (m, r) = Some v \<Longrightarrow> v \<in> set vars \<or> r = Some v"
  by (induction vars arbitrary: m r) (auto split: if_splits)

lemma select_unassigned_variable_unassigned:
  assumes "select_unassigned_variable c d a = Inr (Some var)"
  shows "var \<in> set (variables c) \<and> map_of a var = None"
proof -
  from assms obtain m res where
    smd: "select_min_domain d a (variables c) (1000000, []) = Inr (m, res)" and
    r: "(if length res = 1 then Some (res ! 0) else select_min_neighbors c res (1000000, None)) = Some var"
    by (auto simp: select_unassigned_variable_def split: sum.splits prod.splits if_splits)
  have "var \<in> set res"
  proof (cases "length res = 1")
    case True
    with r show ?thesis by (cases res) auto
  next
    case False
    with r show ?thesis by (auto dest: select_min_neighbors_mem)
  qed
  with select_min_domain_Inr [OF smd] show ?thesis by auto
qed

text \<open>
  The number of variables without an entry in the assignment, and the same number not
  counting \<open>var\<close>: the measures of the recursion of \<open>backtrack\<close>.
\<close>

definition unassigned_count :: "crossword \<Rightarrow> assignment \<Rightarrow> nat" where
  "unassigned_count c a = length (filter (\<lambda>v. map_of a v = None) (variables c))"

definition unassigned_count_but :: "crossword \<Rightarrow> variable \<Rightarrow> assignment \<Rightarrow> nat" where
  "unassigned_count_but c var a =
     length (filter (\<lambda>v. v \<noteq> var \<and> map_of a v = None) (variables c))"

text \<open>
  \<^verbatim>\<open>backtrack\<close>. The assignment dictionary is one object, mutated in place by all the
  recursive calls, so the function takes its state and returns, with the value returned,
  the state it leaves: \<open>Inr (Some result, a')\<close> is a returned assignment and
  \<open>Inr (None, a')\<close> is \<^verbatim>\<open>return None\<close>. \<open>backtrack_loop\<close> is the \<^verbatim>\<open>for\<close> loop over the
  ordered words. \<^verbatim>\<open>assignment[var] = value\<close> is \<open>AList.update\<close> (a new key goes to the
  end) and \<^verbatim>\<open>del assignment[var]\<close> is \<open>AList.delete\<close>; the key deleted has just been
  stored, so the \<^verbatim>\<open>KeyError\<close> of \<^verbatim>\<open>del\<close> cannot occur. When
  \<^verbatim>\<open>select_unassigned_variable\<close> returns \<^verbatim>\<open>None\<close>, \<^verbatim>\<open>order_domain_values\<close> looks up
  \<^verbatim>\<open>self.domains[None]\<close> and raises \<^verbatim>\<open>KeyError\<close>.
\<close>

function backtrack ::
    "crossword \<Rightarrow> domains \<Rightarrow> assignment \<Rightarrow> error + (assignment option \<times> assignment)"
  and backtrack_loop ::
    "crossword \<Rightarrow> domains \<Rightarrow> variable \<Rightarrow> string list \<Rightarrow> assignment \<Rightarrow>
     error + (assignment option \<times> assignment)" where
  "backtrack c d a =
     (if assignment_complete c a then Inr (Some a, a)
      else (case select_unassigned_variable c d a of
              Inl e \<Rightarrow> Inl e
            | Inr None \<Rightarrow> Inl KeyError
            | Inr (Some var) \<Rightarrow>
                (case order_domain_values c d var a of
                   Inl e \<Rightarrow> Inl e
                 | Inr ws \<Rightarrow> backtrack_loop c d var ws a)))"
| "backtrack_loop c d var [] a = Inr (None, a)"
| "backtrack_loop c d var (word # rest) a =
     (case consistent c (AList.update var word a) of
        Inl e \<Rightarrow> Inl e
      | Inr ok \<Rightarrow>
          (if ok
           then (case backtrack c d (AList.update var word a) of
                   Inl e \<Rightarrow> Inl e
                 | Inr (Some result, a') \<Rightarrow> Inr (Some result, a')
                 | Inr (None, a') \<Rightarrow> backtrack_loop c d var rest (AList.delete var a'))
           else backtrack_loop c d var rest (AList.delete var (AList.update var word a))))"
  by pat_completeness auto

lemma backtrack_restores_partial:
  shows "backtrack_backtrack_loop_dom (Inl (c, d, a)) \<Longrightarrow>
         backtrack c d a = Inr (None, s) \<Longrightarrow> s = a"
    and "backtrack_backtrack_loop_dom (Inr (c, d, var, ws, a)) \<Longrightarrow>
         backtrack_loop c d var ws a = Inr (None, s) \<Longrightarrow>
         s = (if ws = [] then a else AList.delete var a)"
proof (induct arbitrary: s and s rule: backtrack_backtrack_loop.pinduct)
  case (1 c d a)
  from "1.prems" "1.hyps"(1) obtain var ws where
    nc: "\<not> assignment_complete c a" and
    sel: "select_unassigned_variable c d a = Inr (Some var)" and
    odv: "order_domain_values c d var a = Inr ws" and
    loop: "backtrack_loop c d var ws a = Inr (None, s)"
    by (auto simp: backtrack.psimps split: if_splits sum.splits option.splits)
  from "1.hyps"(2) [OF nc sel refl odv loop]
  have "s = (if ws = [] then a else AList.delete var a)" .
  moreover from select_unassigned_variable_unassigned [OF sel]
  have "AList.delete var a = a"
    by (simp add: map_of_eq_None_iff)
  ultimately show ?case by simp
next
  case (2 c d var a)
  then show ?case by (simp add: backtrack_loop.psimps)
next
  case (3 c d var word rest a)
  let ?a1 = "AList.update var word a"
  from "3.prems" "3.hyps"(1) obtain ok where
    ok: "consistent c ?a1 = Inr ok"
    by (auto simp: backtrack_loop.psimps split: sum.splits)
  have "s = (if rest = [] then AList.delete var a else AList.delete var (AList.delete var a))"
  proof (cases ok)
    case True
    with "3.prems" "3.hyps"(1) ok obtain a2 where
      bt: "backtrack c d ?a1 = Inr (None, a2)" and
      loop: "backtrack_loop c d var rest (AList.delete var a2) = Inr (None, s)"
      by (auto simp: backtrack_loop.psimps split: sum.splits option.splits prod.splits)
    from "3.hyps"(2) [OF ok True bt] have a2: "a2 = ?a1" .
    from "3.hyps"(3) [OF ok True bt refl refl loop] a2
    show ?thesis by (simp add: delete_update_same)
  next
    case False
    with "3.prems" "3.hyps"(1) ok have
      loop: "backtrack_loop c d var rest (AList.delete var ?a1) = Inr (None, s)"
      by (auto simp: backtrack_loop.psimps split: sum.splits option.splits prod.splits)
    from "3.hyps"(4) [OF ok False loop]
    show ?thesis by (simp add: delete_update_same)
  qed
  then show ?case by (simp add: delete_idem)
qed

lemma unassigned_count_but_delete:
  "unassigned_count_but c var (AList.delete var a) = unassigned_count_but c var a"
proof -
  have "filter (\<lambda>v. v \<noteq> var \<and> map_of (AList.delete var a) v = None) (variables c) =
        filter (\<lambda>v. v \<noteq> var \<and> map_of a v = None) (variables c)"
    by (rule filter_cong) (auto simp: delete_conv')
  then show ?thesis
    by (simp add: unassigned_count_but_def)
qed

lemma unassigned_count_update:
  "unassigned_count c (AList.update var word a) = unassigned_count_but c var a"
proof -
  have "filter (\<lambda>v. map_of (AList.update var word a) v = None) (variables c) =
        filter (\<lambda>v. v \<noteq> var \<and> map_of a v = None) (variables c)"
    by (rule filter_cong) (auto simp: update_conv')
  then show ?thesis
    by (simp add: unassigned_count_def unassigned_count_but_def)
qed

lemma length_filter_but_le:
  "length (filter (\<lambda>v. v \<noteq> x \<and> P v) vs) \<le> length (filter P vs)"
  by (induction vs) auto

lemma length_filter_but_less:
  "x \<in> set vs \<Longrightarrow> P x \<Longrightarrow> length (filter (\<lambda>v. v \<noteq> x \<and> P v) vs) < length (filter P vs)"
proof (induction vs)
  case Nil
  then show ?case by simp
next
  case (Cons v vs)
  show ?case
  proof (cases "v = x")
    case True
    with Cons.prems length_filter_but_le [of x P vs] show ?thesis
      by (simp add: less_Suc_eq_le)
  next
    case False
    with Cons show ?thesis by auto
  qed
qed

lemma unassigned_count_but_less:
  "var \<in> set (variables c) \<Longrightarrow> map_of a var = None \<Longrightarrow>
   unassigned_count_but c var a < unassigned_count c a"
  unfolding unassigned_count_def unassigned_count_but_def
  by (rule length_filter_but_less)

lemma backtrack_total: "All backtrack_backtrack_loop_dom"
proof (relation "measures
    [\<lambda>x. case x of Inl (c, d, a) \<Rightarrow> 2 * unassigned_count c a
                  | Inr (c, d, var, ws, a) \<Rightarrow> 2 * unassigned_count_but c var a + 1,
     \<lambda>x. case x of Inl (c, d, a) \<Rightarrow> 0 | Inr (c, d, var, ws, a) \<Rightarrow> length ws]", goal_cases)
  case 1
  then show ?case by simp
next
  case (2 c d a b var ws)
  with select_unassigned_variable_unassigned [of c d a var]
  have "unassigned_count_but c var a < unassigned_count c a"
    by (simp add: unassigned_count_but_less)
  then show ?case by simp
next
  case (3 c d var word rest a b)
  then show ?case by (simp add: unassigned_count_update)
next
  case (4 c d var word rest a b ba x y)
  then have "backtrack c d (AList.update var word a) = Inr (None, y)" by simp
  from backtrack_restores_partial(1) [OF "4"(6) this]
  show ?case by (simp add: delete_update_same unassigned_count_but_delete)
next
  case (5 c d var word rest a b)
  then show ?case by (simp add: delete_update_same unassigned_count_but_delete)
qed

termination backtrack
  by (rule backtrack_total)

text \<open>
  \<^verbatim>\<open>solve\<close>: node consistency, then \<^verbatim>\<open>ac3()\<close> whose boolean result is discarded, then
  the search from the empty assignment.
\<close>

definition solve :: "crossword \<Rightarrow> error + assignment option" where
  "solve c =
     (case enforce_node_consistency c (init_domains c) of
        Inl e \<Rightarrow> Inl e
      | Inr d1 \<Rightarrow>
          (case ac3 c None d1 of
             Inl e \<Rightarrow> Inl e
           | Inr (ok, d2) \<Rightarrow>
               (case backtrack c d2 [] of
                  Inl e \<Rightarrow> Inl e
                | Inr (result, a) \<Rightarrow> Inr result)))"

section \<open>Specification predicates\<close>

text \<open>
  Arc consistency of the domains: every word of a variable has a supporting word in the
  domain of each of its neighbours, at the overlap indices.
\<close>

definition arc_consistent :: "crossword \<Rightarrow> domains \<Rightarrow> bool" where
  "arc_consistent c d =
     (\<forall>x \<in> set (variables c). \<forall>y \<in> set (neighbors c x).
        (case (overlaps c (x, y), map_of d x, map_of d y) of
           (Some (Some (a, b)), Some dx, Some dy) \<Rightarrow>
             (\<forall>w \<in> set dx. \<exists>w' \<in> set dy. a < length w \<and> b < length w' \<and> w ! a = w' ! b)
         | _ \<Rightarrow> False))"

text \<open>
  The number of words that the candidate \<open>word\<close> of \<open>var\<close> rules out in the domain of the
  neighbour \<open>n\<close>: the words that differ from it at the overlap indices. \<open>ruled_out\<close> adds
  these numbers over the neighbours of \<open>var\<close> that are not assigned.
\<close>

definition ruled_out_by :: "crossword \<Rightarrow> domains \<Rightarrow> variable \<Rightarrow> string \<Rightarrow> variable \<Rightarrow> nat" where
  "ruled_out_by c d var word n =
     (case (overlaps c (var, n), map_of d n) of
        (Some (Some (i, j)), Some dn) \<Rightarrow> length (filter (\<lambda>n_word. word ! i \<noteq> n_word ! j) dn)
      | _ \<Rightarrow> 0)"

definition ruled_out :: "crossword \<Rightarrow> domains \<Rightarrow> assignment \<Rightarrow> variable \<Rightarrow> string \<Rightarrow> nat" where
  "ruled_out c d a var word =
     sum_list (map (ruled_out_by c d var word)
                   (filter (\<lambda>n. map_of a n = None) (neighbors c var)))"

text \<open>
  Modelled from the spec: the module \<^verbatim>\<open>crossword\<close> (the class \<^verbatim>\<open>Crossword\<close>, its table
  \<^verbatim>\<open>overlaps\<close> and its method \<^verbatim>\<open>neighbors\<close>) is not among the sources. By the spec the
  neighbours of a variable are the variables with a defined overlap, and an overlap is a
  pair of character positions inside the two words. \<open>well_formed\<close> is this contract as
  far as indexing needs it: the neighbours of a variable are variables of the crossword
  that overlap it, at indices inside both slots.

  Node consistency of the domains: every variable has a domain, of words of the
  variable's length.
\<close>

definition well_formed :: "crossword \<Rightarrow> bool" where
  "well_formed c =
     (\<forall>v \<in> set (variables c). \<forall>n \<in> set (neighbors c v).
        n \<in> set (variables c) \<and>
        (case overlaps c (v, n) of
           Some (Some (i, j)) \<Rightarrow> i < var_length v \<and> j < var_length n
         | _ \<Rightarrow> False))"

definition node_consistent :: "crossword \<Rightarrow> domains \<Rightarrow> bool" where
  "node_consistent c d =
     (\<forall>v \<in> set (variables c).
        (case map_of d v of
           None \<Rightarrow> False
         | Some ws \<Rightarrow> (\<forall>w \<in> set ws. length w = var_length v)))"

text \<open>
  Modelled from the spec: the method \<^verbatim>\<open>neighbors\<close> of the module \<^verbatim>\<open>crossword\<close> is not
  among the sources. By the spec it returns the variables with a defined overlap;
  \<open>neighbors_complete\<close> is that direction of the contract: two variables of the crossword
  with a defined overlap are neighbours.
\<close>

definition neighbors_complete :: "crossword \<Rightarrow> bool" where
  "neighbors_complete c =
     (\<forall>x \<in> set (variables c). \<forall>y \<in> set (variables c).
        (case overlaps c (x, y) of
           Some (Some ov) \<Rightarrow> y \<in> set (neighbors c x)
         | _ \<Rightarrow> True))"

text \<open>
  A solution of the crossword: a dictionary that assigns a word to every variable, each
  word of its variable's length, different variables with different words, and with equal
  characters at the overlap indices of every two entries that overlap. It is over the
  domains \<open>d\<close> when the word of every variable is in that variable's domain.
  \<open>domain_keys_ok\<close>: the keys of the domains dictionary are variables of the crossword.
\<close>

definition solution :: "crossword \<Rightarrow> assignment \<Rightarrow> bool" where
  "solution c A =
     (distinct (map fst A) \<and>
      (\<forall>v \<in> set (variables c). map_of A v \<noteq> None) \<and>
      (\<forall>(v, w) \<in> set A. length w = var_length v) \<and>
      (\<forall>(x, wx) \<in> set A. \<forall>(y, wy) \<in> set A. x \<noteq> y \<longrightarrow> wx \<noteq> wy) \<and>
      (\<forall>(x, wx) \<in> set A. \<forall>(y, wy) \<in> set A.
         (case overlaps c (x, y) of
            Some (Some (i, j)) \<Rightarrow> i < length wx \<and> j < length wy \<and> wx ! i = wy ! j
          | _ \<Rightarrow> True)))"

definition over_domains :: "crossword \<Rightarrow> assignment \<Rightarrow> domains \<Rightarrow> bool" where
  "over_domains c A d =
     (\<forall>v \<in> set (variables c).
        (case (map_of A v, map_of d v) of
           (Some w, Some ws) \<Rightarrow> w \<in> set ws
         | _ \<Rightarrow> False))"

definition domain_keys_ok :: "crossword \<Rightarrow> domains \<Rightarrow> bool" where
  "domain_keys_ok c d = (set (map fst d) \<subseteq> set (variables c))"

text \<open>
  The assignments met during the search: their keys are variables of the crossword, and
  no key is repeated.
\<close>

definition search_ok :: "crossword \<Rightarrow> assignment \<Rightarrow> bool" where
  "search_ok c a = (set (map fst a) \<subseteq> set (variables c) \<and> distinct (map fst a))"

text \<open>
  The candidate \<open>w\<close> for \<open>var\<close> has been tried on the assignment \<open>a\<close> and has failed:
  with the entry stored, either \<open>consistent\<close> returns \<^verbatim>\<open>False\<close>, or it returns \<^verbatim>\<open>True\<close>
  and the recursive call of \<open>backtrack\<close> returns \<^verbatim>\<open>None\<close>.
\<close>

definition tried_and_failed :: "crossword \<Rightarrow> domains \<Rightarrow> variable \<Rightarrow> assignment \<Rightarrow> string \<Rightarrow> bool" where
  "tried_and_failed c d var a w =
     (consistent c (AList.update var w a) = Inr False \<or>
      consistent c (AList.update var w a) = Inr True \<and>
      backtrack c d (AList.update var w a) = Inr (None, AList.update var w a))"

section \<open>Example crosswords\<close>

text \<open>
  The grid has an across slot of length 2 and a down slot of length 3 that share their
  first cell. The order in which the set of variables is iterated and the word list are
  parameters.
\<close>

definition slot_across :: variable where
  "slot_across = \<lparr>var_i = 0, var_j = 0, var_direction = ACROSS, var_length = 2\<rparr>"

definition slot_down :: variable where
  "slot_down = \<lparr>var_i = 0, var_j = 0, var_direction = DOWN, var_length = 3\<rparr>"

definition corner_crossword :: "variable list \<Rightarrow> string list \<Rightarrow> crossword" where
  "corner_crossword vars ws =
     \<lparr>variables = vars, words = ws,
      overlaps = (\<lambda>xy. if xy = (slot_across, slot_down) then Some (Some (0, 0))
                       else if xy = (slot_down, slot_across) then Some (Some (0, 0))
                       else None),
      neighbors = (\<lambda>v. if v = slot_across then [slot_down]
                        else if v = slot_down then [slot_across] else [])\<rparr>"

text \<open>
  A grid with an across slot of length 3 in the first row and two down slots of length 2
  that cross it at its first and at its last cell. The two down slots do not overlap.
\<close>

definition bridge_across :: variable where
  "bridge_across = \<lparr>var_i = 0, var_j = 0, var_direction = ACROSS, var_length = 3\<rparr>"

definition bridge_left :: variable where
  "bridge_left = \<lparr>var_i = 0, var_j = 0, var_direction = DOWN, var_length = 2\<rparr>"

definition bridge_right :: variable where
  "bridge_right = \<lparr>var_i = 0, var_j = 2, var_direction = DOWN, var_length = 2\<rparr>"

definition bridge_crossword :: crossword where
  "bridge_crossword =
     \<lparr>variables = [bridge_across, bridge_left, bridge_right],
      words = [''CAT'', ''CAB'', ''CO'', ''TO''],
      overlaps = (\<lambda>xy. if xy = (bridge_across, bridge_left) then Some (Some (0, 0))
                       else if xy = (bridge_left, bridge_across) then Some (Some (0, 0))
                       else if xy = (bridge_across, bridge_right) then Some (Some (2, 0))
                       else if xy = (bridge_right, bridge_across) then Some (Some (0, 2))
                       else if xy = (bridge_left, bridge_right) then Some None
                       else if xy = (bridge_right, bridge_left) then Some None
                       else None),
      neighbors = (\<lambda>v. if v = bridge_across then [bridge_left, bridge_right]
                        else if v = bridge_left then [bridge_across]
                        else if v = bridge_right then [bridge_across] else [])\<rparr>"

text \<open>
  A crossword with one across slot of length 5 and a list of 1000001 different words of
  five capital letters: word \<open>n\<close> spells the number \<open>n\<close> in base 26, lowest digit first,
  with A for 0. \<open>word_number\<close> reads the number back.
\<close>

definition letter :: "nat \<Rightarrow> char" where
  "letter k = char_of (65 + k mod 26)"

definition letter_word :: "nat \<Rightarrow> string" where
  "letter_word n =
     [letter n, letter (n div 26), letter (n div 26 div 26), letter (n div 26 div 26 div 26),
      letter (n div 26 div 26 div 26 div 26)]"

definition million_words :: "string list" where
  "million_words = map letter_word [0..<1000001]"

definition five_slot :: variable where
  "five_slot = \<lparr>var_i = 0, var_j = 0, var_direction = ACROSS, var_length = 5\<rparr>"

definition million_crossword :: crossword where
  "million_crossword =
     \<lparr>variables = [five_slot], words = million_words,
      overlaps = (\<lambda>xy. None), neighbors = (\<lambda>v. [])\<rparr>"

definition letter_index :: "char \<Rightarrow> nat" where
  "letter_index ch = of_char ch - 65"

definition word_number :: "string \<Rightarrow> nat" where
  "word_number w =
     letter_index (w ! 0) + 26 * (letter_index (w ! 1) + 26 * (letter_index (w ! 2) +
       26 * (letter_index (w ! 3) + 26 * letter_index (w ! 4))))"

section \<open>Properties\<close>

subsection \<open>Evaluation on the two-slot crossword\<close>

lemma slots_distinct: "slot_across \<noteq> slot_down" "slot_down \<noteq> slot_across"
  by (simp_all add: slot_across_def slot_down_def)

lemmas corner_simps =
  corner_crossword_def slots_distinct ac3_def loop_var_def initial_arcs_def ac3_step_def
  revise_def overlaps_get_def domains_get_def remove_words_def set_equals_zero_def
  enqueue_arcs_def enforce_node_consistency_def init_domains_def

lemma corner_node_consistency:
  "enforce_node_consistency (corner_crossword [slot_across, slot_down] [''AB'', ''CD'', ''AXX'', ''EXX''])
     (init_domains (corner_crossword [slot_across, slot_down] [''AB'', ''CD'', ''AXX'', ''EXX'']))
   = Inr [(slot_across, [''AB'', ''CD'']), (slot_down, [''AXX'', ''EXX''])]"
  "enforce_node_consistency (corner_crossword [slot_down, slot_across] [''AB'', ''CD'', ''AXX'', ''EXX''])
     (init_domains (corner_crossword [slot_down, slot_across] [''AB'', ''CD'', ''AXX'', ''EXX'']))
   = Inr [(slot_down, [''AXX'', ''EXX'']), (slot_across, [''AB'', ''CD''])]"
  "enforce_node_consistency (corner_crossword [slot_across, slot_down] [''AB'', ''EXX''])
     (init_domains (corner_crossword [slot_across, slot_down] [''AB'', ''EXX'']))
   = Inr [(slot_across, [''AB'']), (slot_down, [''EXX''])]"
  "enforce_node_consistency (corner_crossword [slot_down, slot_across] [''AB'', ''EXX''])
     (init_domains (corner_crossword [slot_down, slot_across] [''AB'', ''EXX'']))
   = Inr [(slot_down, [''EXX'']), (slot_across, [''AB''])]"
  by (simp_all add: corner_simps) (simp_all add: slot_across_def slot_down_def)

subsection \<open>The worklist of \<open>ac3\<close>\<close>

text \<open>
  C6. The claim is that the initial worklist holds both directions of every overlapping
  pair. In the two-slot crossword each slot is a neighbour of the other, and the initial
  worklist holds one arc only: the arc that starts at the variable iterated first. The
  arc in the other direction is left out by the test on the reversed pair.
\<close>

theorem ac3_initial_worklist_misses_reverse_arc:
  "slot_down \<in> set (neighbors (corner_crossword [slot_across, slot_down] [''AB'', ''EXX'']) slot_across) \<and>
   slot_across \<in> set (neighbors (corner_crossword [slot_across, slot_down] [''AB'', ''EXX'']) slot_down) \<and>
   initial_arcs (corner_crossword [slot_across, slot_down] [''AB'', ''EXX'']) = [(slot_across, slot_down)] \<and>
   initial_arcs (corner_crossword [slot_down, slot_across] [''AB'', ''EXX'']) = [(slot_down, slot_across)]"
  by (simp add: corner_simps)

text \<open>No run of \<open>ac3\<close> returns \<^verbatim>\<open>False\<close>.\<close>

lemma ac3_step_never_returns:
  "ac3_step c var xy arcs d = Inr (r, arcs', d') \<Longrightarrow> r = None"
  by (auto simp: ac3_step_def set_equals_zero_def
      split: sum.splits prod.splits if_splits option.splits)

lemma ac3_loop_True:
  "ac3_loop c var arcs d = Inr (ok, d') \<Longrightarrow> ok"
proof (induction c var arcs d rule: ac3_loop.induct)
  case (1 c var d)
  then show ?case by simp
next
  case (2 c var xy arcs d)
  from "2.prems" obtain r arcs1 d1 where
    step: "ac3_step c var xy arcs d = Inr (r, arcs1, d1)"
    by (auto split: sum.splits)
  from ac3_step_never_returns [OF step] have r: "r = None" .
  with step "2.prems" have "ac3_loop c var arcs1 d1 = Inr (ok, d')" by simp
  from "2.IH" [OF step refl r refl this] show ?case .
qed

lemma ac3_True: "ac3 c arcs d = Inr (ok, d') \<Longrightarrow> ok"
  by (auto simp: ac3_def dest: ac3_loop_True)

text \<open>
  C2. The claim is that \<open>ac3\<close> returns \<^verbatim>\<open>False\<close> when a revision empties a domain. With
  the words \<open>AB\<close> and \<open>EXX\<close> the first revision removes the only word of the revised
  slot, and \<open>ac3\<close> still returns \<^verbatim>\<open>True\<close>, with that domain empty: the test compares the
  set with the integer zero.
\<close>

theorem ac3_returns_True_with_empty_domain:
  "enforce_node_consistency (corner_crossword [slot_across, slot_down] [''AB'', ''EXX''])
     (init_domains (corner_crossword [slot_across, slot_down] [''AB'', ''EXX'']))
   = Inr [(slot_across, [''AB'']), (slot_down, [''EXX''])] \<and>
   ac3 (corner_crossword [slot_across, slot_down] [''AB'', ''EXX'']) None
       [(slot_across, [''AB'']), (slot_down, [''EXX''])]
   = Inr (True, [(slot_across, []), (slot_down, [''EXX''])]) \<and>
   enforce_node_consistency (corner_crossword [slot_down, slot_across] [''AB'', ''EXX''])
     (init_domains (corner_crossword [slot_down, slot_across] [''AB'', ''EXX'']))
   = Inr [(slot_down, [''EXX'']), (slot_across, [''AB''])] \<and>
   ac3 (corner_crossword [slot_down, slot_across] [''AB'', ''EXX'']) None
       [(slot_down, [''EXX'']), (slot_across, [''AB''])]
   = Inr (True, [(slot_down, []), (slot_across, [''AB''])])"
  by (simp add: corner_node_consistency) (simp add: corner_simps)

text \<open>
  C3. The claim is that the domains are arc consistent whenever \<open>ac3\<close> returns
  \<^verbatim>\<open>True\<close> after node consistency. With the words \<open>AB\<close>, \<open>CD\<close>, \<open>AXX\<close>, \<open>EXX\<close> only
  the slot iterated first is revised; the other slot keeps a word without support, in
  both iteration orders of the variables.
\<close>

theorem ac3_True_not_arc_consistent:
  "enforce_node_consistency (corner_crossword [slot_across, slot_down] [''AB'', ''CD'', ''AXX'', ''EXX''])
     (init_domains (corner_crossword [slot_across, slot_down] [''AB'', ''CD'', ''AXX'', ''EXX'']))
   = Inr [(slot_across, [''AB'', ''CD'']), (slot_down, [''AXX'', ''EXX''])] \<and>
   ac3 (corner_crossword [slot_across, slot_down] [''AB'', ''CD'', ''AXX'', ''EXX'']) None
       [(slot_across, [''AB'', ''CD'']), (slot_down, [''AXX'', ''EXX''])]
   = Inr (True, [(slot_across, [''AB'']), (slot_down, [''AXX'', ''EXX''])]) \<and>
   \<not> arc_consistent (corner_crossword [slot_across, slot_down] [''AB'', ''CD'', ''AXX'', ''EXX''])
         [(slot_across, [''AB'']), (slot_down, [''AXX'', ''EXX''])] \<and>
   enforce_node_consistency (corner_crossword [slot_down, slot_across] [''AB'', ''CD'', ''AXX'', ''EXX''])
     (init_domains (corner_crossword [slot_down, slot_across] [''AB'', ''CD'', ''AXX'', ''EXX'']))
   = Inr [(slot_down, [''AXX'', ''EXX'']), (slot_across, [''AB'', ''CD''])] \<and>
   ac3 (corner_crossword [slot_down, slot_across] [''AB'', ''CD'', ''AXX'', ''EXX'']) None
       [(slot_down, [''AXX'', ''EXX'']), (slot_across, [''AB'', ''CD''])]
   = Inr (True, [(slot_down, [''AXX'']), (slot_across, [''AB'', ''CD''])]) \<and>
   \<not> arc_consistent (corner_crossword [slot_down, slot_across] [''AB'', ''CD'', ''AXX'', ''EXX''])
         [(slot_down, [''AXX'']), (slot_across, [''AB'', ''CD''])]"
  by (simp add: corner_node_consistency) (simp add: corner_simps arc_consistent_def)

theorem ac3_True_not_arc_consistent_witness:
  "ac3 (corner_crossword [slot_across, slot_down] [''AB'', ''CD'', ''AXX'', ''EXX'']) None
       [(slot_across, [''AB'', ''CD'']), (slot_down, [''AXX'', ''EXX''])]
   = Inr (True, [(slot_across, [''AB'']), (slot_down, [''AXX'', ''EXX''])]) \<and>
   \<not> arc_consistent (corner_crossword [slot_across, slot_down] [''AB'', ''CD'', ''AXX'', ''EXX''])
         [(slot_across, [''AB'']), (slot_down, [''AXX'', ''EXX''])]"
  using ac3_True_not_arc_consistent by blast

text \<open>The three-slot crossword: node consistency, the initial worklist and its first arc.\<close>

lemma bridge_distinct:
  "bridge_across \<noteq> bridge_left" "bridge_left \<noteq> bridge_across"
  "bridge_across \<noteq> bridge_right" "bridge_right \<noteq> bridge_across"
  "bridge_left \<noteq> bridge_right" "bridge_right \<noteq> bridge_left"
  by (simp_all add: bridge_across_def bridge_left_def bridge_right_def)

lemmas bridge_simps =
  bridge_crossword_def bridge_distinct ac3_def loop_var_def initial_arcs_def ac3_step_def
  revise_def overlaps_get_def domains_get_def remove_words_def set_equals_zero_def
  enqueue_arcs_def enforce_node_consistency_def init_domains_def

lemma bridge_node_consistency:
  "enforce_node_consistency bridge_crossword (init_domains bridge_crossword)
   = Inr [(bridge_across, [''CAT'', ''CAB'']), (bridge_left, [''CO'', ''TO'']),
          (bridge_right, [''CO'', ''TO''])]"
  by (simp add: bridge_simps) (simp add: bridge_across_def bridge_left_def bridge_right_def)

lemma bridge_initial_arcs:
  "initial_arcs bridge_crossword = [(bridge_across, bridge_left), (bridge_across, bridge_right)]"
  by (simp add: bridge_simps)

lemma bridge_first_step:
  "ac3_step bridge_crossword (loop_var bridge_crossword None)
     (bridge_across, bridge_left) [(bridge_across, bridge_right)]
     [(bridge_across, [''CAT'', ''CAB'']), (bridge_left, [''CO'', ''TO'']),
      (bridge_right, [''CO'', ''TO''])]
   = Inr (None, [(bridge_across, bridge_right)],
          [(bridge_across, [''CAT'', ''CAB'']), (bridge_left, [''CO'', ''TO'']),
           (bridge_right, [''CO'', ''TO''])])"
  by (simp add: bridge_simps)

text \<open>
  C5. The claim is that after a revision of the arc \<open>(x, y)\<close> the arcs \<open>(x, z)\<close> for the
  neighbours \<open>z\<close> of \<open>x\<close> other than \<open>y\<close> are appended, unless already queued. The loop
  runs over the neighbours of the variable left by the initialising loop instead. In the
  three-slot crossword that variable is the right down slot; the second arc of the
  worklist, (across, right), is revised and the pair (across, across) is appended, where
  the neighbours of the across slot would append the arc (across, left).
\<close>

theorem ac3_step_enqueues_stale_neighbors:
  "ac3_step bridge_crossword (loop_var bridge_crossword None)
     (bridge_across, bridge_right) []
     [(bridge_across, [''CAT'', ''CAB'']), (bridge_left, [''CO'', ''TO'']),
      (bridge_right, [''CO'', ''TO''])]
   = Inr (None, [(bridge_across, bridge_across)],
          [(bridge_across, [''CAT'']), (bridge_left, [''CO'', ''TO'']),
           (bridge_right, [''CO'', ''TO''])]) \<and>
   enqueue_arcs bridge_across bridge_right (neighbors bridge_crossword bridge_across) []
   = [(bridge_across, bridge_left)]"
  by (simp add: bridge_simps)

lemma bridge_ac3:
  "ac3 bridge_crossword None
     [(bridge_across, [''CAT'', ''CAB'']), (bridge_left, [''CO'', ''TO'']),
      (bridge_right, [''CO'', ''TO''])]
   = Inr (True, [(bridge_across, [''CAT'']), (bridge_left, [''CO'', ''TO'']),
                 (bridge_right, [''CO'', ''TO''])])"
  by (simp add: bridge_simps)

subsection \<open>Value ordering\<close>

lemma order_domain_values_words_Inr:
  "order_domain_values_words overlap word ws cnt = Inr r \<Longrightarrow>
   (ws = [] \<and> r = cnt) \<or>
   (\<exists>i j. overlap = Some (i, j) \<and> i < length word \<and> (\<forall>w \<in> set ws. j < length w) \<and>
      r = cnt + length (filter (\<lambda>n_word. word ! i \<noteq> n_word ! j) ws))"
proof (induction ws arbitrary: cnt)
  case Nil
  then show ?case by simp
next
  case (Cons n_word rest)
  from Cons.prems obtain i j where ov: "overlap = Some (i, j)" and i: "i < length word"
    and j: "j < length n_word"
    and rec: "order_domain_values_words overlap word rest
                (if \<not> word ! i = n_word ! j then cnt + 1 else cnt) = Inr r"
    by (cases overlap) (auto split: if_splits)
  from Cons.IH [OF rec] ov i j show ?case
    by (auto split: if_splits)
qed

lemma order_domain_values_neighbors_Inr:
  "order_domain_values_neighbors c d a var word ns cnt = Inr r \<Longrightarrow>
   r = cnt + sum_list (map (ruled_out_by c d var word) (filter (\<lambda>n. map_of a n = None) ns))"
proof (induction ns arbitrary: cnt)
  case Nil
  then show ?case by simp
next
  case (Cons n ns)
  show ?case
  proof (cases "map_of a n = None")
    case False
    with Cons.prems have "order_domain_values_neighbors c d a var word ns cnt = Inr r"
      by simp
    from Cons.IH [OF this] False show ?thesis by auto
  next
    case True
    with Cons.prems obtain overlap dn cnt' where
      ov: "overlaps c (var, n) = Some overlap" and dn: "map_of d n = Some dn" and
      ws: "order_domain_values_words overlap word dn cnt = Inr cnt'" and
      rec: "order_domain_values_neighbors c d a var word ns cnt' = Inr r"
      by (auto simp: overlaps_get_def domains_get_def split: sum.splits option.splits)
    from order_domain_values_words_Inr [OF ws] ov dn
    have "cnt' = cnt + ruled_out_by c d var word n"
      by (auto simp: ruled_out_by_def split: option.splits)
    with Cons.IH [OF rec] True show ?thesis by simp
  qed
qed

lemma order_domain_values_loop_Inr:
  "order_domain_values_loop c d a var ws result = Inr result' \<Longrightarrow>
   result' = result @ map (\<lambda>w. (w, ruled_out c d a var w)) ws"
proof (induction ws arbitrary: result)
  case Nil
  then show ?case by simp
next
  case (Cons word rest)
  from Cons.prems obtain cnt where
    n: "order_domain_values_neighbors c d a var word (neighbors c var) 0 = Inr cnt" and
    rec: "order_domain_values_loop c d a var rest (result @ [(word, cnt)]) = Inr result'"
    by (auto split: sum.splits)
  from order_domain_values_neighbors_Inr [OF n] have "cnt = ruled_out c d a var word"
    by (simp add: ruled_out_def)
  with Cons.IH [OF rec] show ?case by simp
qed

lemma order_domain_values_Inr:
  assumes "order_domain_values c d var a = Inr ws"
  shows "\<exists>dv. map_of d var = Some dv \<and>
           ws = map fst (sort_key snd (map (\<lambda>w. (w, ruled_out c d a var w)) dv))"
proof -
  from assms obtain dv result where dv: "map_of d var = Some dv" and
    loop: "order_domain_values_loop c d a var dv [] = Inr result" and
    ws: "ws = map fst (sort_key snd result)"
    by (auto simp: order_domain_values_def domains_get_def split: sum.splits option.splits)
  from order_domain_values_loop_Inr [OF loop] dv ws show ?thesis by simp
qed

lemma order_domain_values_mset:
  assumes "order_domain_values c d var a = Inr ws"
  shows "\<exists>dv. map_of d var = Some dv \<and> mset ws = mset dv"
proof -
  from order_domain_values_Inr [OF assms] obtain dv where dv: "map_of d var = Some dv" and
    ws: "ws = map fst (sort_key snd (map (\<lambda>w. (w, ruled_out c d a var w)) dv))"
    by blast
  have "mset ws = mset dv"
    unfolding ws by (simp add: multiset.map_comp comp_def)
  with dv show ?thesis by blast
qed

lemma order_domain_values_sorted:
  assumes "order_domain_values c d var a = Inr ws"
  shows "sorted (map (ruled_out c d a var) ws)"
proof -
  from order_domain_values_Inr [OF assms] obtain dv where
    ws: "ws = map fst (sort_key snd (map (\<lambda>w. (w, ruled_out c d a var w)) dv))"
    by blast
  let ?xs = "map (\<lambda>w. (w, ruled_out c d a var w)) dv"
  have "map (ruled_out c d a var) ws = map snd (sort_key snd ?xs)"
    unfolding ws by auto
  then show ?thesis by (simp only: sorted_sort_key)
qed

lemma sorted_map_positions:
  assumes "sorted (map f ws)" "i < length ws" "j < length ws" "(f (ws ! i) :: nat) < f (ws ! j)"
  shows "i < j"
proof (rule ccontr)
  assume "\<not> i < j"
  then have "j \<le> i" by simp
  with assms(1,2) have "map f ws ! j \<le> map f ws ! i"
    by (simp add: sorted_iff_nth_mono)
  with assms(2,3,4) show False by simp
qed

lemma order_domain_values_words_returns:
  "i < length word \<Longrightarrow> \<forall>w \<in> set ws. j < length w \<Longrightarrow>
   \<exists>r. order_domain_values_words (Some (i, j)) word ws cnt = Inr r"
  by (induction ws arbitrary: cnt) auto

lemma order_domain_values_neighbors_returns:
  assumes "\<forall>n \<in> set ns. map_of a n = None \<longrightarrow>
             (\<exists>i j dn. overlaps c (var, n) = Some (Some (i, j)) \<and> i < length word \<and>
                map_of d n = Some dn \<and> (\<forall>w \<in> set dn. j < length w))"
  shows "\<exists>r. order_domain_values_neighbors c d a var word ns cnt = Inr r"
  using assms
proof (induction ns arbitrary: cnt)
  case Nil
  then show ?case by simp
next
  case (Cons n ns)
  show ?case
  proof (cases "map_of a n = None")
    case False
    with Cons show ?thesis by auto
  next
    case True
    with Cons.prems obtain i j dn where ov: "overlaps c (var, n) = Some (Some (i, j))"
      and i: "i < length word" and dn: "map_of d n = Some dn"
      and j: "\<forall>w \<in> set dn. j < length w"
      by auto
    from order_domain_values_words_returns [OF i j] obtain cnt' where
      "order_domain_values_words (Some (i, j)) word dn cnt = Inr cnt'"
      by blast
    moreover from Cons.prems have "\<exists>r. order_domain_values_neighbors c d a var word ns cnt' = Inr r"
      by (intro Cons.IH) simp
    then obtain r where "order_domain_values_neighbors c d a var word ns cnt' = Inr r"
      by blast
    ultimately show ?thesis
      using True ov dn by (simp add: overlaps_get_def domains_get_def)
  qed
qed

lemma order_domain_values_loop_returns:
  assumes "\<forall>word \<in> set ws. \<exists>r. order_domain_values_neighbors c d a var word (neighbors c var) 0 = Inr r"
  shows "\<exists>res. order_domain_values_loop c d a var ws result = Inr res"
  using assms
proof (induction ws arbitrary: result)
  case Nil
  then show ?case by simp
next
  case (Cons word rest)
  then obtain r where "order_domain_values_neighbors c d a var word (neighbors c var) 0 = Inr r"
    by auto
  with Cons show ?case by simp
qed

lemma order_domain_values_returns:
  assumes wf: "well_formed c" and nc: "node_consistent c d" and var: "var \<in> set (variables c)"
  shows "\<exists>ws. order_domain_values c d var a = Inr ws"
proof -
  from nc var obtain dv where dv: "map_of d var = Some dv"
    and len: "\<forall>w \<in> set dv. length w = var_length var"
    by (auto simp: node_consistent_def split: option.splits)
  have "\<exists>r. order_domain_values_neighbors c d a var word (neighbors c var) 0 = Inr r"
    if word: "word \<in> set dv" for word
  proof (rule order_domain_values_neighbors_returns, intro ballI impI)
    fix n assume n: "n \<in> set (neighbors c var)"
    with wf var have nv: "n \<in> set (variables c)"
      and "case overlaps c (var, n) of
             Some (Some (i, j)) \<Rightarrow> i < var_length var \<and> j < var_length n
           | _ \<Rightarrow> False"
      unfolding well_formed_def by blast+
    then obtain i j where ov: "overlaps c (var, n) = Some (Some (i, j))"
      and i: "i < var_length var" and j: "j < var_length n"
      by (auto split: option.splits)
    from nc nv obtain dn where dn: "map_of d n = Some dn"
      and lenn: "\<forall>w \<in> set dn. length w = var_length n"
      by (auto simp: node_consistent_def split: option.splits)
    from ov i j dn lenn len word
    show "\<exists>i j dn. overlaps c (var, n) = Some (Some (i, j)) \<and> i < length word \<and>
            map_of d n = Some dn \<and> (\<forall>w \<in> set dn. j < length w)"
      by auto
  qed
  then obtain res where "order_domain_values_loop c d a var dv [] = Inr res"
    using order_domain_values_loop_returns [of dv c d a var "[]"] by blast
  with dv show ?thesis
    by (simp add: order_domain_values_def domains_get_def)
qed

text \<open>
  C9. On a well-formed crossword whose domains are node consistent, the list returned by
  \<open>order_domain_values\<close> is in ascending order of the number of words ruled out in the
  domains of the unassigned neighbours: a word that rules out strictly fewer words than
  another stands strictly before it.
\<close>

theorem order_domain_values_least_constraining_first:
  assumes "well_formed c" and "node_consistent c d" and "var \<in> set (variables c)"
  shows "\<exists>ws dv. order_domain_values c d var a = Inr ws \<and> map_of d var = Some dv \<and>
           sorted (map (ruled_out c d a var) ws) \<and>
           (\<forall>i j. i < length ws \<and> j < length ws \<and>
                  ruled_out c d a var (ws ! i) < ruled_out c d a var (ws ! j) \<longrightarrow> i < j) \<and>
           (\<forall>w1 \<in> set dv. \<forall>w2 \<in> set dv.
              ruled_out c d a var w1 < ruled_out c d a var w2 \<longrightarrow>
              (\<exists>i j. i < j \<and> j < length ws \<and> ws ! i = w1 \<and> ws ! j = w2))"
proof -
  from order_domain_values_returns [OF assms] obtain ws where
    ws: "order_domain_values c d var a = Inr ws"
    by blast
  from order_domain_values_mset [OF ws] obtain dv where dv: "map_of d var = Some dv"
    and m: "mset ws = mset dv"
    by blast
  note srt = order_domain_values_sorted [OF ws]
  have pos: "i < j" if "i < length ws" "j < length ws"
    "ruled_out c d a var (ws ! i) < ruled_out c d a var (ws ! j)" for i j
    using srt that by (rule sorted_map_positions)
  have ex: "\<exists>i j. i < j \<and> j < length ws \<and> ws ! i = w1 \<and> ws ! j = w2"
    if w1: "w1 \<in> set dv" and w2: "w2 \<in> set dv"
      and lt: "ruled_out c d a var w1 < ruled_out c d a var w2" for w1 w2
  proof -
    from m have "set ws = set dv" by (rule mset_eq_setD)
    with w1 w2 have "w1 \<in> set ws" "w2 \<in> set ws" by simp_all
    then obtain i j where i: "i < length ws" "ws ! i = w1"
      and j: "j < length ws" "ws ! j = w2"
      unfolding in_set_conv_nth by blast
    with lt pos [of i j] show ?thesis by blast
  qed
  show ?thesis
  proof (intro exI conjI)
    show "order_domain_values c d var a = Inr ws" by (rule ws)
    show "map_of d var = Some dv" by (rule dv)
    show "sorted (map (ruled_out c d a var) ws)" by (rule srt)
    show "\<forall>i j. i < length ws \<and> j < length ws \<and>
                  ruled_out c d a var (ws ! i) < ruled_out c d a var (ws ! j) \<longrightarrow> i < j"
      using pos by blast
    show "\<forall>w1 \<in> set dv. \<forall>w2 \<in> set dv.
              ruled_out c d a var w1 < ruled_out c d a var w2 \<longrightarrow>
              (\<exists>i j. i < j \<and> j < length ws \<and> ws ! i = w1 \<and> ws ! j = w2)"
      using ex by blast
  qed
qed

lemma corner_well_formed: "well_formed (corner_crossword [slot_across, slot_down] ws)"
  by (simp add: well_formed_def corner_crossword_def slots_distinct)
    (simp add: slot_across_def slot_down_def)

lemma corner_node_consistent:
  "node_consistent (corner_crossword [slot_across, slot_down] ws)
     [(slot_across, [''CD'', ''AB'']), (slot_down, [''AXX'', ''EXX''])]"
  by (simp add: node_consistent_def corner_crossword_def slots_distinct)
    (simp add: slot_across_def slot_down_def)

lemma corner_order_domain_values:
  "order_domain_values (corner_crossword [slot_across, slot_down] ws)
     [(slot_across, [''CD'', ''AB'']), (slot_down, [''AXX'', ''EXX''])] slot_across []
   = Inr [''AB'', ''CD'']"
  by (simp add: order_domain_values_def domains_get_def overlaps_get_def corner_crossword_def
      slots_distinct)

lemma corner_ruled_out:
  "ruled_out (corner_crossword [slot_across, slot_down] ws)
     [(slot_across, [''CD'', ''AB'']), (slot_down, [''AXX'', ''EXX''])] [] slot_across ''AB'' = 1"
  "ruled_out (corner_crossword [slot_across, slot_down] ws)
     [(slot_across, [''CD'', ''AB'']), (slot_down, [''AXX'', ''EXX''])] [] slot_across ''CD'' = 2"
  by (simp_all add: ruled_out_def ruled_out_by_def corner_crossword_def slots_distinct)

theorem order_domain_values_least_constraining_first_witness:
  "well_formed (corner_crossword [slot_across, slot_down] [''AB'', ''CD'', ''AXX'', ''EXX'']) \<and>
   node_consistent (corner_crossword [slot_across, slot_down] [''AB'', ''CD'', ''AXX'', ''EXX''])
     [(slot_across, [''CD'', ''AB'']), (slot_down, [''AXX'', ''EXX''])] \<and>
   order_domain_values (corner_crossword [slot_across, slot_down] [''AB'', ''CD'', ''AXX'', ''EXX''])
     [(slot_across, [''CD'', ''AB'']), (slot_down, [''AXX'', ''EXX''])] slot_across []
   = Inr [''AB'', ''CD''] \<and>
   ruled_out (corner_crossword [slot_across, slot_down] [''AB'', ''CD'', ''AXX'', ''EXX''])
     [(slot_across, [''CD'', ''AB'']), (slot_down, [''AXX'', ''EXX''])] [] slot_across ''AB'' = 1 \<and>
   ruled_out (corner_crossword [slot_across, slot_down] [''AB'', ''CD'', ''AXX'', ''EXX''])
     [(slot_across, [''CD'', ''AB'']), (slot_down, [''AXX'', ''EXX''])] [] slot_across ''CD'' = 2 \<and>
   sorted (map (ruled_out (corner_crossword [slot_across, slot_down] [''AB'', ''CD'', ''AXX'', ''EXX''])
     [(slot_across, [''CD'', ''AB'']), (slot_down, [''AXX'', ''EXX''])] [] slot_across) [''AB'', ''CD''])"
proof -
  let ?c = "corner_crossword [slot_across, slot_down] [''AB'', ''CD'', ''AXX'', ''EXX'']"
  let ?d = "[(slot_across, [''CD'', ''AB'']), (slot_down, [''AXX'', ''EXX''])]"
  have wf: "well_formed ?c" by (rule corner_well_formed)
  have nc: "node_consistent ?c ?d" by (rule corner_node_consistent)
  have var: "slot_across \<in> set (variables ?c)" by (simp add: corner_crossword_def)
  have val: "order_domain_values ?c ?d slot_across [] = Inr [''AB'', ''CD'']"
    by (rule corner_order_domain_values)
  from order_domain_values_least_constraining_first [OF wf nc var, of "[]"]
  have "sorted (map (ruled_out ?c ?d [] slot_across) [''AB'', ''CD''])"
    unfolding val by blast
  with wf nc val corner_ruled_out [of "[''AB'', ''CD'', ''AXX'', ''EXX'']"]
  show ?thesis by blast
qed

subsection \<open>Backtracking\<close>

lemma backtrack_restores:
  "backtrack c d a = Inr (None, s) \<Longrightarrow> s = a"
  by (rule backtrack_restores_partial(1) [OF spec [OF backtrack_total]])

lemma backtrack_loop_restores:
  "backtrack_loop c d var ws a = Inr (None, s) \<Longrightarrow>
   s = (if ws = [] then a else AList.delete var a)"
  by (rule backtrack_restores_partial(2) [OF spec [OF backtrack_total]])

text \<open>
  C7. When \<open>backtrack\<close> returns \<^verbatim>\<open>None\<close>, the assignment dictionary is what it was on
  entry: the same entries in the same order. Every entry that the call or its recursive
  calls added has been deleted again.
\<close>

theorem backtrack_atomic_on_failure:
  assumes "backtrack c d a = Inr (None, s)"
  shows "s = a"
  using assms by (rule backtrack_restores)

theorem backtrack_atomic_on_failure_witness:
  "backtrack (corner_crossword [slot_across, slot_down] [''AB'', ''CD'', ''AXX'', ''EXX''])
     [(slot_across, [''AB'', ''CD'']), (slot_down, [''AXX'', ''EXX''])] [(slot_across, ''CD'')]
   = Inr (None, [(slot_across, ''CD'')])"
proof -
  have "\<exists>s. backtrack (corner_crossword [slot_across, slot_down] [''AB'', ''CD'', ''AXX'', ''EXX''])
          [(slot_across, [''AB'', ''CD'']), (slot_down, [''AXX'', ''EXX''])] [(slot_across, ''CD'')]
        = Inr (None, s)"
    by (simp add: assignment_complete_def select_unassigned_variable_def
        order_domain_values_def consistent_def domains_get_def overlaps_get_def
        corner_crossword_def slots_distinct)
  then obtain s where run:
    "backtrack (corner_crossword [slot_across, slot_down] [''AB'', ''CD'', ''AXX'', ''EXX''])
       [(slot_across, [''AB'', ''CD'']), (slot_down, [''AXX'', ''EXX''])] [(slot_across, ''CD'')]
     = Inr (None, s)"
    by blast
  from backtrack_atomic_on_failure [OF run] run show ?thesis by simp
qed

text \<open>
  A loop of \<open>backtrack\<close> that ends with \<^verbatim>\<open>return None\<close> has tried every word of its list.
\<close>

lemma backtrack_loop_tries_all:
  assumes "backtrack_loop c d var ws a = Inr (None, s)" and "map_of a var = None"
  shows "\<forall>w \<in> set ws. tried_and_failed c d var a w"
  using assms(1)
proof (induction ws)
  case Nil
  then show ?case by simp
next
  case (Cons word rest)
  let ?a1 = "AList.update var word a"
  from assms(2) have del: "AList.delete var ?a1 = a"
    by (simp add: delete_update_same map_of_eq_None_iff)
  from Cons.prems obtain ok where ok: "consistent c ?a1 = Inr ok"
    by (auto split: sum.splits)
  have "tried_and_failed c d var a word \<and> backtrack_loop c d var rest a = Inr (None, s)"
  proof (cases ok)
    case True
    with Cons.prems ok obtain a2 where bt: "backtrack c d ?a1 = Inr (None, a2)"
      and loop: "backtrack_loop c d var rest (AList.delete var a2) = Inr (None, s)"
      by (auto simp del: backtrack.simps split: sum.splits option.splits prod.splits)
    from backtrack_restores [OF bt] have a2: "a2 = ?a1" .
    with bt ok True loop del show ?thesis
      by (simp add: tried_and_failed_def del: backtrack.simps)
  next
    case False
    with Cons.prems ok del show ?thesis
      by (simp add: tried_and_failed_def del: backtrack.simps)
  qed
  with Cons.IH show ?case by simp
qed

lemma backtrack_tries_all:
  assumes fail: "backtrack c d a = Inr (None, s)"
    and sel: "select_unassigned_variable c d a = Inr (Some var)"
    and odv: "order_domain_values c d var a = Inr ws"
  shows "\<forall>w \<in> set ws. tried_and_failed c d var a w"
proof -
  from fail have nc: "\<not> assignment_complete c a"
    by (auto split: if_splits)
  with fail sel odv have "backtrack_loop c d var ws a = Inr (None, s)"
    by simp
  moreover from select_unassigned_variable_unassigned [OF sel] have "map_of a var = None"
    by simp
  ultimately show ?thesis by (rule backtrack_loop_tries_all)
qed

text \<open>
  C10. On a well-formed crossword whose domains are node consistent,
  \<open>order_domain_values\<close> returns a list, and the list is a permutation of the current
  domain of the variable: the same words, each as often as in the domain, so exactly once
  for a domain without repetition. So the search tries every word of the domain before it
  fails: when \<open>backtrack\<close> selects \<open>var\<close> and returns \<^verbatim>\<open>None\<close> (or when its loop over the
  returned list does), every word of the domain of \<open>var\<close> has been stored for \<open>var\<close> and
  has failed, by the consistency check or in the recursive call.
\<close>

theorem order_domain_values_is_permutation:
  assumes "well_formed c" and "node_consistent c d" and "var \<in> set (variables c)"
  shows "\<exists>ws dv. order_domain_values c d var a = Inr ws \<and> map_of d var = Some dv \<and>
           mset ws = mset dv \<and> set ws = set dv \<and> length ws = length dv \<and>
           (distinct dv \<longrightarrow> distinct ws) \<and>
           (\<forall>s. select_unassigned_variable c d a = Inr (Some var) \<and>
                backtrack c d a = Inr (None, s) \<longrightarrow>
                (\<forall>w \<in> set dv. tried_and_failed c d var a w)) \<and>
           (\<forall>s. map_of a var = None \<and> backtrack_loop c d var ws a = Inr (None, s) \<longrightarrow>
                (\<forall>w \<in> set dv. tried_and_failed c d var a w))"
proof -
  from order_domain_values_returns [OF assms] obtain ws where
    ws: "order_domain_values c d var a = Inr ws"
    by blast
  from order_domain_values_mset [OF ws] obtain dv where dv: "map_of d var = Some dv"
    and m: "mset ws = mset dv"
    by blast
  from m have sets: "set ws = set dv" by (rule mset_eq_setD)
  show ?thesis
  proof (intro exI conjI)
    show "order_domain_values c d var a = Inr ws" by (rule ws)
    show "map_of d var = Some dv" by (rule dv)
    show "mset ws = mset dv" by (rule m)
    show "set ws = set dv" by (rule sets)
    show "length ws = length dv" using m by (rule mset_eq_length)
    show "distinct dv \<longrightarrow> distinct ws" using mset_eq_imp_distinct_iff [OF m] by simp
    show "\<forall>s. select_unassigned_variable c d a = Inr (Some var) \<and>
               backtrack c d a = Inr (None, s) \<longrightarrow>
               (\<forall>w \<in> set dv. tried_and_failed c d var a w)"
      using backtrack_tries_all [OF _ _ ws] sets by blast
    show "\<forall>s. map_of a var = None \<and> backtrack_loop c d var ws a = Inr (None, s) \<longrightarrow>
               (\<forall>w \<in> set dv. tried_and_failed c d var a w)"
      using backtrack_loop_tries_all [of c d var ws a] sets by blast
  qed
qed

lemma corner_node_consistent_failing:
  "node_consistent (corner_crossword [slot_across, slot_down] ws)
     [(slot_across, [''AB'', ''CD'']), (slot_down, [''EXX''])]"
  by (simp add: node_consistent_def corner_crossword_def slots_distinct)
    (simp add: slot_across_def slot_down_def)

lemma corner_select_failing:
  "select_unassigned_variable (corner_crossword [slot_across, slot_down] ws)
     [(slot_across, [''AB'', ''CD'']), (slot_down, [''EXX''])] [] = Inr (Some slot_down)"
  by (simp add: select_unassigned_variable_def domains_get_def corner_crossword_def
      slots_distinct)

lemma corner_backtrack_failing:
  "backtrack (corner_crossword [slot_across, slot_down] ws)
     [(slot_across, [''AB'', ''CD'']), (slot_down, [''EXX''])] [] = Inr (None, [])"
  by (simp add: assignment_complete_def select_unassigned_variable_def
      order_domain_values_def consistent_def domains_get_def overlaps_get_def
      corner_crossword_def slots_distinct)

theorem order_domain_values_is_permutation_witness:
  "well_formed (corner_crossword [slot_across, slot_down] [''AB'', ''CD'', ''AXX'', ''EXX'']) \<and>
   node_consistent (corner_crossword [slot_across, slot_down] [''AB'', ''CD'', ''AXX'', ''EXX''])
     [(slot_across, [''CD'', ''AB'']), (slot_down, [''AXX'', ''EXX''])] \<and>
   order_domain_values (corner_crossword [slot_across, slot_down] [''AB'', ''CD'', ''AXX'', ''EXX''])
     [(slot_across, [''CD'', ''AB'']), (slot_down, [''AXX'', ''EXX''])] slot_across []
   = Inr [''AB'', ''CD''] \<and>
   mset [''AB'', ''CD''] = mset [''CD'', ''AB''] \<and>
   well_formed (corner_crossword [slot_across, slot_down] [''AB'', ''CD'', ''EXX'']) \<and>
   node_consistent (corner_crossword [slot_across, slot_down] [''AB'', ''CD'', ''EXX''])
     [(slot_across, [''AB'', ''CD'']), (slot_down, [''EXX''])] \<and>
   select_unassigned_variable (corner_crossword [slot_across, slot_down] [''AB'', ''CD'', ''EXX''])
     [(slot_across, [''AB'', ''CD'']), (slot_down, [''EXX''])] [] = Inr (Some slot_down) \<and>
   backtrack (corner_crossword [slot_across, slot_down] [''AB'', ''CD'', ''EXX''])
     [(slot_across, [''AB'', ''CD'']), (slot_down, [''EXX''])] [] = Inr (None, []) \<and>
   tried_and_failed (corner_crossword [slot_across, slot_down] [''AB'', ''CD'', ''EXX''])
     [(slot_across, [''AB'', ''CD'']), (slot_down, [''EXX''])] slot_down [] ''EXX''"
proof -
  let ?c = "corner_crossword [slot_across, slot_down] [''AB'', ''CD'', ''AXX'', ''EXX'']"
  let ?d = "[(slot_across, [''CD'', ''AB'']), (slot_down, [''AXX'', ''EXX''])]"
  have wf: "well_formed ?c" by (rule corner_well_formed)
  have nc: "node_consistent ?c ?d" by (rule corner_node_consistent)
  have var: "slot_across \<in> set (variables ?c)" by (simp add: corner_crossword_def)
  have val: "order_domain_values ?c ?d slot_across [] = Inr [''AB'', ''CD'']"
    by (rule corner_order_domain_values)
  from order_domain_values_is_permutation [OF wf nc var, of "[]"]
  have perm: "mset [''AB'', ''CD''] = mset [''CD'', ''AB'']"
    unfolding val by (simp add: slots_distinct del: backtrack.simps)
  let ?c2 = "corner_crossword [slot_across, slot_down] [''AB'', ''CD'', ''EXX'']"
  let ?d2 = "[(slot_across, [''AB'', ''CD'']), (slot_down, [''EXX''])]"
  have wf2: "well_formed ?c2" by (rule corner_well_formed)
  have nc2: "node_consistent ?c2 ?d2" by (rule corner_node_consistent_failing)
  have var2: "slot_down \<in> set (variables ?c2)" by (simp add: corner_crossword_def)
  have sel: "select_unassigned_variable ?c2 ?d2 [] = Inr (Some slot_down)"
    by (rule corner_select_failing)
  have fail: "backtrack ?c2 ?d2 [] = Inr (None, [])"
    by (rule corner_backtrack_failing)
  from order_domain_values_is_permutation [OF wf2 nc2 var2, of "[]"] obtain dv where
    dv: "map_of ?d2 slot_down = Some dv" and
    tried: "\<forall>s. select_unassigned_variable ?c2 ?d2 [] = Inr (Some slot_down) \<and>
               backtrack ?c2 ?d2 [] = Inr (None, s) \<longrightarrow>
               (\<forall>w \<in> set dv. tried_and_failed ?c2 ?d2 slot_down [] w)"
    by blast
  from dv have "dv = [''EXX'']" by (simp add: slots_distinct)
  with tried sel fail have "tried_and_failed ?c2 ?d2 slot_down [] ''EXX''"
    by (simp del: backtrack.simps)
  with wf nc val perm wf2 nc2 sel fail show ?thesis by blast
qed

lemma consistent_neighbors_True:
  "consistent_neighbors c a var word ns = Inr True \<Longrightarrow>
   \<forall>n \<in> set ns. \<forall>n_word. map_of a n = Some n_word \<longrightarrow>
     (\<exists>i j. overlaps c (var, n) = Some (Some (i, j)) \<and> i < length word \<and> j < length n_word \<and>
        word ! i = n_word ! j)"
proof (induction ns)
  case Nil
  then show ?case by simp
next
  case (Cons n ns)
  show ?case
  proof (cases "map_of a n")
    case None
    with Cons show ?thesis by simp
  next
    case (Some n_word)
    with Cons.prems obtain ov where ov: "overlaps c (var, n) = Some (Some ov)"
      and i: "fst ov < length word" and j: "snd ov < length n_word"
      and eq: "word ! fst ov = n_word ! snd ov"
      and rest: "consistent_neighbors c a var word ns = Inr True"
      by (auto simp: overlaps_get_def split: option.splits if_splits)
    from Cons.IH [OF rest] Some ov i j eq show ?thesis
      by (cases ov) auto
  qed
qed

lemma consistent_loop_True:
  "consistent_loop c a xs ws = Inr True \<Longrightarrow>
   (\<forall>(var, word) \<in> set xs.
      var_length var = length word \<and> word \<notin> set ws \<and>
      consistent_neighbors c a var word (neighbors c var) = Inr True) \<and>
   distinct (map snd xs)"
proof (induction xs arbitrary: ws)
  case Nil
  then show ?case by simp
next
  case (Cons x xs)
  obtain var word where x: "x = (var, word)" by (cases x)
  from Cons.prems x have len: "var_length var = length word" and nw: "word \<notin> set ws"
    and nb: "consistent_neighbors c a var word (neighbors c var) = Inr True"
    and rest: "consistent_loop c a xs (ws @ [word]) = Inr True"
    by (auto split: if_splits sum.splits)
  from Cons.IH [OF rest] x len nw nb show ?case
    by auto
qed

lemma search_ok_update:
  "search_ok c a \<Longrightarrow> var \<in> set (variables c) \<Longrightarrow> search_ok c (AList.update var word a)"
  by (auto simp: search_ok_def distinct_update update_keys simp del: set_map split: if_splits)

lemma search_ok_delete: "search_ok c a \<Longrightarrow> search_ok c (AList.delete var a)"
  by (auto simp: search_ok_def distinct_delete delete_keys distinct_removeAll simp del: set_map)

lemma backtrack_result:
  shows "search_ok c a \<Longrightarrow> consistent c a = Inr True \<Longrightarrow>
         backtrack c d a = Inr (Some r, s) \<Longrightarrow>
         r = s \<and> search_ok c r \<and> assignment_complete c r \<and> consistent c r = Inr True"
    and "search_ok c a \<Longrightarrow> var \<in> set (variables c) \<Longrightarrow>
         backtrack_loop c d var ws a = Inr (Some r, s) \<Longrightarrow>
         r = s \<and> search_ok c r \<and> assignment_complete c r \<and> consistent c r = Inr True"
proof (induction c d a and c d var ws a arbitrary: r s and r s
    rule: backtrack_backtrack_loop.induct)
  case (1 c d a)
  show ?case
  proof (cases "assignment_complete c a")
    case True
    with "1.prems" show ?thesis by auto
  next
    case False
    with "1.prems"(3) obtain var ws where
      sel: "select_unassigned_variable c d a = Inr (Some var)" and
      odv: "order_domain_values c d var a = Inr ws" and
      loop: "backtrack_loop c d var ws a = Inr (Some r, s)"
      by (auto split: sum.splits option.splits)
    from select_unassigned_variable_unassigned [OF sel] have "var \<in> set (variables c)"
      by simp
    from "1.IH" [OF False sel refl odv "1.prems"(1) this loop] show ?thesis .
  qed
next
  case (2 c d var a)
  then show ?case by simp
next
  case (3 c d var word rest a)
  let ?a1 = "AList.update var word a"
  have ok1: "search_ok c ?a1"
    using "3.prems"(1,2) by (rule search_ok_update)
  have okd: "search_ok c (AList.delete var ?a1)"
    using ok1 by (rule search_ok_delete)
  from "3.prems"(3) obtain b where b: "consistent c ?a1 = Inr b"
    by (auto split: sum.splits)
  show ?case
  proof (cases b)
    case True
    with "3.prems"(3) b obtain x y where bt: "backtrack c d ?a1 = Inr (x, y)"
      by (auto split: sum.splits)
    show ?thesis
    proof (cases x)
      case (Some r')
      with "3.prems"(3) b True bt have "backtrack c d ?a1 = Inr (Some r, s)"
        by simp
      from "3.IH"(1) [OF b True ok1 _ this] b True show ?thesis by auto
    next
      case None
      with bt have y: "y = ?a1" by (simp add: backtrack_restores)
      from None "3.prems"(3) b True bt
      have loop: "backtrack_loop c d var rest (AList.delete var y) = Inr (Some r, s)"
        by simp
      from okd y have "search_ok c (AList.delete var y)" by simp
      from "3.IH"(2) [OF b True bt refl None this "3.prems"(2) loop] show ?thesis .
    qed
  next
    case False
    with "3.prems"(3) b
    have loop: "backtrack_loop c d var rest (AList.delete var ?a1) = Inr (Some r, s)"
      by simp
    from "3.IH"(3) [OF b False okd "3.prems"(2) loop] show ?thesis .
  qed
qed

lemma solve_Some:
  assumes "solve c = Inr (Some A)"
  shows "search_ok c A \<and> assignment_complete c A \<and> consistent c A = Inr True"
proof -
  from assms obtain d2 s where bt: "backtrack c d2 [] = Inr (Some A, s)"
    by (auto simp: solve_def simp del: backtrack.simps split: sum.splits prod.splits)
  have "search_ok c []" by (simp add: search_ok_def)
  moreover have "consistent c [] = Inr True" by (simp add: consistent_def)
  ultimately show ?thesis using bt by (blast dest: backtrack_result(1))
qed

lemma distinct_snd_entries:
  "distinct (map snd a) \<Longrightarrow> (x, w) \<in> set a \<Longrightarrow> (y, w) \<in> set a \<Longrightarrow> x = y"
  by (induction a) (auto simp: image_iff)

text \<open>
  C1. When \<open>solve\<close> returns an assignment, the assignment is complete (every variable of
  the crossword has an entry) and satisfies the three hard constraints: each word has the
  length of its variable, two different variables never have the same word, and two
  assigned variables with a defined overlap \<open>(i, j)\<close> agree on character \<open>i\<close> of the first
  word and character \<open>j\<close> of the second. The neighbours are those of the grid model: the
  variables with a defined overlap.
\<close>

theorem solve_returns_valid_assignment:
  assumes "solve c = Inr (Some A)" and "neighbors_complete c"
  shows "distinct (map fst A) \<and>
         (\<forall>v \<in> set (variables c). \<exists>w. map_of A v = Some w) \<and>
         (\<forall>(v, w) \<in> set A. length w = var_length v) \<and>
         (\<forall>(x, wx) \<in> set A. \<forall>(y, wy) \<in> set A. x \<noteq> y \<longrightarrow> wx \<noteq> wy) \<and>
         (\<forall>(x, wx) \<in> set A. \<forall>(y, wy) \<in> set A. \<forall>i j.
            overlaps c (x, y) = Some (Some (i, j)) \<longrightarrow>
            i < length wx \<and> j < length wy \<and> wx ! i = wy ! j)"
proof -
  from solve_Some [OF assms(1)] have ok: "search_ok c A" and
    complete: "assignment_complete c A" and cons: "consistent c A = Inr True"
    by simp_all
  from ok have keys: "set (map fst A) \<subseteq> set (variables c)" and dk: "distinct (map fst A)"
    by (simp_all add: search_ok_def)
  from cons have loop: "consistent_loop c A A [] = Inr True"
    by (simp add: consistent_def)
  note entries = consistent_loop_True [OF loop]
  from entries have ds: "distinct (map snd A)" by simp
  have c1: "\<forall>v \<in> set (variables c). \<exists>w. map_of A v = Some w"
    using complete by (auto simp: assignment_complete_def list_all_iff)
  have c2: "\<forall>(v, w) \<in> set A. length w = var_length v"
    using entries by auto
  have c3: "\<forall>(x, wx) \<in> set A. \<forall>(y, wy) \<in> set A. x \<noteq> y \<longrightarrow> wx \<noteq> wy"
    using distinct_snd_entries [OF ds] by blast
  have c4: "i < length wx \<and> j < length wy \<and> wx ! i = wy ! j"
    if x: "(x, wx) \<in> set A" and y: "(y, wy) \<in> set A"
      and ov: "overlaps c (x, y) = Some (Some (i, j))" for x wx y wy i j
  proof -
    from x y keys have "x \<in> set (variables c)" "y \<in> set (variables c)"
      by force+
    with assms(2) ov have nb: "y \<in> set (neighbors c x)"
      by (force simp: neighbors_complete_def)
    from entries x have "consistent_neighbors c A x wx (neighbors c x) = Inr True"
      by auto
    from consistent_neighbors_True [OF this] nb
    have "\<forall>n_word. map_of A y = Some n_word \<longrightarrow>
            (\<exists>i j. overlaps c (x, y) = Some (Some (i, j)) \<and> i < length wx \<and>
               j < length n_word \<and> wx ! i = n_word ! j)"
      by blast
    moreover from dk y have "map_of A y = Some wy" by simp
    ultimately show ?thesis using ov by auto
  qed
  from dk c1 c2 c3 c4 show ?thesis by blast
qed

lemma corner_ac3:
  "ac3 (corner_crossword [slot_across, slot_down] [''AB'', ''CD'', ''AXX'', ''EXX'']) None
       [(slot_across, [''AB'', ''CD'']), (slot_down, [''AXX'', ''EXX''])]
   = Inr (True, [(slot_across, [''AB'']), (slot_down, [''AXX'', ''EXX''])])"
  by (simp add: corner_simps)

lemma corner_solve:
  "solve (corner_crossword [slot_across, slot_down] [''AB'', ''CD'', ''AXX'', ''EXX''])
   = Inr (Some [(slot_across, ''AB''), (slot_down, ''AXX'')])"
proof -
  have "backtrack (corner_crossword [slot_across, slot_down] [''AB'', ''CD'', ''AXX'', ''EXX''])
          [(slot_across, [''AB'']), (slot_down, [''AXX'', ''EXX''])] []
        = Inr (Some [(slot_across, ''AB''), (slot_down, ''AXX'')],
               [(slot_across, ''AB''), (slot_down, ''AXX'')])"
    by (simp add: assignment_complete_def select_unassigned_variable_def
        order_domain_values_def consistent_def domains_get_def overlaps_get_def
        corner_crossword_def slots_distinct)
      (simp add: slot_across_def slot_down_def)
  with corner_node_consistency(1) corner_ac3 show ?thesis
    by (simp add: solve_def del: backtrack.simps)
qed

lemma corner_neighbors_complete:
  "neighbors_complete (corner_crossword [slot_across, slot_down] ws)"
  by (simp add: neighbors_complete_def corner_crossword_def slots_distinct)

theorem solve_returns_valid_assignment_witness:
  "solve (corner_crossword [slot_across, slot_down] [''AB'', ''CD'', ''AXX'', ''EXX''])
   = Inr (Some [(slot_across, ''AB''), (slot_down, ''AXX'')]) \<and>
   neighbors_complete (corner_crossword [slot_across, slot_down] [''AB'', ''CD'', ''AXX'', ''EXX'']) \<and>
   distinct (map fst [(slot_across, ''AB''), (slot_down, ''AXX'')]) \<and>
   ''AB'' ! 0 = ''AXX'' ! 0"
proof -
  let ?c = "corner_crossword [slot_across, slot_down] [''AB'', ''CD'', ''AXX'', ''EXX'']"
  have run: "solve ?c = Inr (Some [(slot_across, ''AB''), (slot_down, ''AXX'')])"
    by (rule corner_solve)
  have nc: "neighbors_complete ?c" by (rule corner_neighbors_complete)
  have ov: "overlaps ?c (slot_across, slot_down) = Some (Some (0, 0))"
    by (simp add: corner_crossword_def)
  from solve_returns_valid_assignment [OF run nc] ov
  have "distinct (map fst [(slot_across, ''AB''), (slot_down, ''AXX'')])"
    and "''AB'' ! 0 = ''AXX'' ! 0"
    by auto
  with run nc show ?thesis by blast
qed

subsection \<open>Variable selection\<close>

lemma select_min_domain_attained:
  "select_min_domain d a vars (m, acc) = Inr (m', res) \<Longrightarrow>
   m' = m \<or> (\<exists>v \<in> set vars. map_of a v = None \<and> domain_size d v = m')"
proof (induction vars arbitrary: m acc)
  case Nil
  then show ?case by simp
next
  case (Cons var vars)
  show ?case
  proof (cases "map_of a var = None")
    case False
    with Cons.prems have "select_min_domain d a vars (m, acc) = Inr (m', res)"
      by simp
    from Cons.IH [OF this] show ?thesis by auto
  next
    case True
    with Cons.prems obtain ws where ws: "map_of d var = Some ws"
      by (auto simp: domains_get_def split: option.splits)
    have sz: "domain_size d var = length ws"
      using ws by (simp add: domain_size_def)
    note step = Cons.prems [unfolded select_min_domain_step [OF True ws]]
    show ?thesis
    proof (cases "length ws < m")
      case less: True
      with step have "select_min_domain d a vars (length ws, [var]) = Inr (m', res)"
        by simp
      from Cons.IH [OF this] True sz show ?thesis by auto
    next
      case False
      with step have "\<exists>acc'. select_min_domain d a vars (m, acc') = Inr (m', res)"
        by (auto split: if_splits)
      then obtain acc' where "select_min_domain d a vars (m, acc') = Inr (m', res)"
        by blast
      from Cons.IH [OF this] show ?thesis by auto
    qed
  qed
qed

lemma select_min_domain_returns:
  "\<forall>v \<in> set vars. map_of a v = None \<longrightarrow> map_of d v \<noteq> None \<Longrightarrow>
   \<exists>r. select_min_domain d a vars (m, acc) = Inr r"
proof (induction vars arbitrary: m acc)
  case Nil
  then show ?case by simp
next
  case (Cons var vars)
  then have IH: "\<exists>r. select_min_domain d a vars (m', acc') = Inr r" for m' acc'
    by simp
  show ?case
  proof (cases "map_of a var = None")
    case False
    with IH show ?thesis by auto
  next
    case True
    with Cons.prems obtain ws where ws: "map_of d var = Some ws" by auto
    show ?thesis
      unfolding select_min_domain_step [OF True ws] using IH by simp
  qed
qed

lemma select_min_neighbors_result:
  "select_min_neighbors c vars (m, r) = r' \<Longrightarrow>
   (r' = r \<and> (\<forall>u \<in> set vars. m \<le> length (neighbors c u))) \<or>
   (\<exists>v \<in> set vars. r' = Some v \<and> length (neighbors c v) < m \<and>
      (\<forall>u \<in> set vars. length (neighbors c v) \<le> length (neighbors c u)))"
proof (induction vars arbitrary: m r)
  case Nil
  then show ?case by simp
next
  case (Cons var vars)
  show ?case
  proof (cases "length (neighbors c var) < m")
    case True
    with Cons.prems
    have "select_min_neighbors c vars (length (neighbors c var), Some var) = r'"
      by simp
    from Cons.IH [OF this] True show ?thesis
      by (elim disjE) (auto intro: less_imp_le order_trans less_trans)
  next
    case False
    with Cons.prems have "select_min_neighbors c vars (m, r) = r'"
      by simp
    from Cons.IH [OF this] False show ?thesis
      by (elim disjE) auto
  qed
qed

text \<open>
  Up to the value 1000000 the selection is the one described: when every unassigned
  variable has a domain, some unassigned variable has at most 1000000 words in its domain
  and every variable has fewer than 1000000 neighbours, \<open>select_unassigned_variable\<close>
  returns an unassigned variable whose domain size is minimal among the unassigned
  variables, and whose number of neighbours is minimal among the unassigned variables
  tied at that size.
\<close>

theorem select_unassigned_variable_minimal:
  assumes doms: "\<forall>u \<in> set (variables c). map_of a u = None \<longrightarrow> map_of d u \<noteq> None"
    and small: "\<exists>u \<in> set (variables c). map_of a u = None \<and> domain_size d u \<le> 1000000"
    and degree: "\<forall>u \<in> set (variables c). length (neighbors c u) < 1000000"
  shows "\<exists>v. select_unassigned_variable c d a = Inr (Some v) \<and>
           v \<in> set (variables c) \<and> map_of a v = None \<and>
           (\<forall>u \<in> set (variables c). map_of a u = None \<longrightarrow>
              domain_size d v \<le> domain_size d u \<and>
              (domain_size d u = domain_size d v \<longrightarrow>
                 length (neighbors c v) \<le> length (neighbors c u)))"
proof -
  from select_min_domain_returns [OF doms] obtain m res where
    smd: "select_min_domain d a (variables c) (1000000, []) = Inr (m, res)"
    by fastforce
  from select_min_domain_Inr [OF smd] have m_le: "m \<le> 1000000"
    and lower: "\<forall>v \<in> set (variables c). map_of a v = None \<longrightarrow> m \<le> domain_size d v"
    and res: "res = filter (\<lambda>v. map_of a v = None \<and> domain_size d v = m) (variables c)"
    by auto
  from small obtain u where u: "u \<in> set (variables c)" "map_of a u = None"
    "domain_size d u \<le> 1000000"
    by blast
  have "\<exists>v \<in> set (variables c). map_of a v = None \<and> domain_size d v = m"
  proof (cases "m = 1000000")
    case True
    with u lower have "domain_size d u = m" by fastforce
    with u show ?thesis by blast
  next
    case False
    with select_min_domain_attained [OF smd] show ?thesis by simp
  qed
  with res have nonempty: "res \<noteq> []"
    by (auto simp: filter_empty_conv)
  have sel: "select_unassigned_variable c d a =
             Inr (if length res = 1 then Some (res ! 0)
                  else select_min_neighbors c res (1000000, None))"
    using smd by (simp add: select_unassigned_variable_def)
  have "\<exists>v \<in> set res. select_unassigned_variable c d a = Inr (Some v) \<and>
          (\<forall>u \<in> set res. length (neighbors c v) \<le> length (neighbors c u))"
  proof (cases "length res = 1")
    case True
    then obtain v where "res = [v]" by (cases res) auto
    with sel show ?thesis by simp
  next
    case False
    from nonempty obtain w where w: "w \<in> set res" by (cases res) auto
    with res degree have "length (neighbors c w) < 1000000" by simp
    with w select_min_neighbors_result [OF refl, of c res 1000000 None]
    obtain v where "v \<in> set res"
      "select_min_neighbors c res (1000000, None) = Some v"
      "\<forall>u \<in> set res. length (neighbors c v) \<le> length (neighbors c u)"
      by (fastforce simp: not_le [symmetric])
    with sel False show ?thesis by auto
  qed
  then obtain v where v: "v \<in> set res" "select_unassigned_variable c d a = Inr (Some v)"
    and nb: "\<forall>u \<in> set res. length (neighbors c v) \<le> length (neighbors c u)"
    by blast
  from v(1) res have vv: "v \<in> set (variables c)" "map_of a v = None" "domain_size d v = m"
    by simp_all
  have "domain_size d v \<le> domain_size d u \<and>
        (domain_size d u = domain_size d v \<longrightarrow>
           length (neighbors c v) \<le> length (neighbors c u))"
    if "u \<in> set (variables c)" "map_of a u = None" for u
  proof -
    from that lower vv have "domain_size d v \<le> domain_size d u" by simp
    moreover have "length (neighbors c v) \<le> length (neighbors c u)"
      if "domain_size d u = domain_size d v"
    proof -
      from that \<open>u \<in> set (variables c)\<close> \<open>map_of a u = None\<close> vv res have "u \<in> set res"
        by simp
      with nb show ?thesis by blast
    qed
    ultimately show ?thesis by blast
  qed
  with v(2) vv show ?thesis by blast
qed

theorem select_unassigned_variable_minimal_witness:
  "select_unassigned_variable (corner_crossword [slot_across, slot_down] [''AB'', ''CD'', ''AXX'', ''EXX''])
     [(slot_across, [''AB'', ''CD'']), (slot_down, [''AXX''])] [] = Inr (Some slot_down) \<and>
   domain_size [(slot_across, [''AB'', ''CD'']), (slot_down, [''AXX''])] slot_down
     \<le> domain_size [(slot_across, [''AB'', ''CD'']), (slot_down, [''AXX''])] slot_across"
proof -
  let ?c = "corner_crossword [slot_across, slot_down] [''AB'', ''CD'', ''AXX'', ''EXX'']"
  let ?d = "[(slot_across, [''AB'', ''CD'']), (slot_down, [''AXX''])]"
  have doms: "\<forall>u \<in> set (variables ?c). map_of [] u = (None :: string option) \<longrightarrow> map_of ?d u \<noteq> None"
    by (simp add: corner_crossword_def slots_distinct)
  have small: "\<exists>u \<in> set (variables ?c). map_of [] u = (None :: string option) \<and> domain_size ?d u \<le> 1000000"
    by (simp add: corner_crossword_def domain_size_def)
  have degree: "\<forall>u \<in> set (variables ?c). length (neighbors ?c u) < 1000000"
    by (simp add: corner_crossword_def slots_distinct)
  from select_unassigned_variable_minimal [OF doms small degree]
  obtain v where sel: "select_unassigned_variable ?c ?d [] = Inr (Some v)"
    and least: "\<forall>u \<in> set (variables ?c). map_of [] u = (None :: string option) \<longrightarrow>
                  domain_size ?d v \<le> domain_size ?d u"
    by blast
  have "select_unassigned_variable ?c ?d [] = Inr (Some slot_down)"
    by (simp add: select_unassigned_variable_def domains_get_def corner_crossword_def
        slots_distinct)
  with sel have v: "v = slot_down" by simp
  from least have "domain_size ?d v \<le> domain_size ?d slot_across"
    by (simp add: corner_crossword_def)
  with sel v show ?thesis by simp
qed

lemma letter_index_letter: "letter_index (letter k) = k mod 26"
proof -
  have "65 + k mod 26 < 256"
    using mod_less_divisor [of 26 k] by linarith
  then show ?thesis
    by (simp add: letter_index_def letter_def)
qed

lemma base26:
  assumes "n < 11881376"
  shows "n mod 26 + 26 * (n div 26 mod 26 + 26 * (n div 26 div 26 mod 26 +
     26 * (n div 26 div 26 div 26 mod 26 + 26 * (n div 26 div 26 div 26 div 26 mod 26)))) = (n::nat)"
proof -
  have step: "k mod 26 + 26 * (k div 26) = k" for k :: nat
    by simp
  from assms have "n div 26 div 26 div 26 div 26 < 26"
    by (simp add: div_mult2_eq [symmetric] less_mult_imp_div_less)
  then have "n div 26 div 26 div 26 div 26 mod 26 = n div 26 div 26 div 26 div 26"
    by simp
  then show ?thesis
    by (simp only: step)
qed

lemma word_number_letter_word: "n < 11881376 \<Longrightarrow> word_number (letter_word n) = n"
  by (simp add: word_number_def letter_word_def letter_index_letter base26)

lemma length_million_words: "length million_words = 1000001"
  by (simp add: million_words_def)

lemma distinct_million_words: "distinct million_words"
proof -
  have "inj_on letter_word (set [0..<1000001])"
  proof (rule inj_on_inverseI [where g = word_number])
    fix n :: nat assume "n \<in> set [0..<1000001]"
    then have "n < 11881376" by simp
    then show "word_number (letter_word n) = n" by (rule word_number_letter_word)
  qed
  then show ?thesis
    unfolding million_words_def by (simp add: distinct_map)
qed

lemma million_words_lengths: "\<forall>w \<in> set million_words. length w = var_length five_slot"
  by (auto simp: million_words_def five_slot_def letter_word_def)

lemma million_words_node_consistent:
  "filter (\<lambda>word. \<not> length word = var_length five_slot) million_words = []"
  using million_words_lengths by (simp add: filter_empty_conv)

lemma million_node_consistency:
  "enforce_node_consistency million_crossword (init_domains million_crossword)
   = Inr [(five_slot, million_words)]"
  by (simp add: enforce_node_consistency_def init_domains_def million_crossword_def
      domains_get_def million_words_node_consistent remove_words_def)

lemma million_ac3:
  "ac3 million_crossword None [(five_slot, million_words)] = Inr (True, [(five_slot, million_words)])"
  by (simp add: ac3_def initial_arcs_def million_crossword_def)

text \<open>
  C8. The claim is that an unassigned variable of minimal domain size is returned whenever
  some variable is unassigned. In the crossword with 1000001 five-letter words, the only
  variable is unassigned and its domain, untouched by node and arc consistency, has more
  words than the value 1000000 from which the search for the minimum starts: no variable
  is recorded, \<open>select_unassigned_variable\<close> returns \<^verbatim>\<open>None\<close>, and \<open>solve\<close> ends with the
  \<^verbatim>\<open>KeyError\<close> of \<^verbatim>\<open>self.domains[None]\<close>.
\<close>

theorem select_unassigned_variable_beyond_sentinel:
  "five_slot \<in> set (variables million_crossword) \<and>
   map_of ([] :: assignment) five_slot = None \<and>
   select_unassigned_variable million_crossword [(five_slot, million_words)] [] = Inr None \<and>
   solve million_crossword = Inl KeyError"
proof -
  have sel: "select_unassigned_variable million_crossword [(five_slot, million_words)] [] = Inr None"
    by (simp add: million_crossword_def select_unassigned_variable_def domains_get_def
        length_million_words)
  have "backtrack million_crossword [(five_slot, million_words)] [] = Inl KeyError"
    by (simp add: sel) (simp add: assignment_complete_def million_crossword_def)
  then have "solve million_crossword = Inl KeyError"
    by (simp add: solve_def million_node_consistency million_ac3 del: backtrack.simps)
  with sel show ?thesis by (simp add: million_crossword_def)
qed

subsection \<open>Soundness of pruning\<close>

lemma enforce_node_consistency_loop_Inr:
  "enforce_node_consistency_loop vars d = Inr d' \<Longrightarrow>
   map_of d' v =
     (if v \<in> set vars
      then map_option (filter (\<lambda>w. length w = var_length v)) (map_of d v)
      else map_of d v)"
proof (induction vars arbitrary: d)
  case Nil
  then show ?case by simp
next
  case (Cons var vars)
  from Cons.prems obtain ws where ws: "map_of d var = Some ws"
    and rec: "enforce_node_consistency_loop vars
                (AList.update var (filter (\<lambda>w. length w = var_length var) ws) d) = Inr d'"
    by (auto simp: domains_get_def remove_words_filter split: option.splits)
  from Cons.IH [OF rec] ws show ?case
    by (auto simp: update_conv')
qed

lemma revise_outer_lookup:
  "revise_outer d y ov ws acc = Inr r \<Longrightarrow> ws \<noteq> [] \<Longrightarrow> map_of d y \<noteq> None"
  by (cases ws; cases acc) (auto simp: domains_get_def split: if_splits option.splits)

lemma revise_lookup:
  assumes "revise c x y d = Inr (revision, d')" and "x \<noteq> y"
    and "overlaps c (x, y) = Some (Some ov)" and "map_of d x = Some dx" and "dx \<noteq> []"
  shows "map_of d y \<noteq> None"
proof -
  from assms obtain r where "revise_outer d y ov dx (False, []) = Inr r"
    by (auto simp: revise_def overlaps_get_def domains_get_def split: sum.splits)
  from revise_outer_lookup [OF this assms(5)] show ?thesis .
qed

lemma over_domainsD:
  "over_domains c A d \<Longrightarrow> v \<in> set (variables c) \<Longrightarrow>
   \<exists>w ws. map_of A v = Some w \<and> map_of d v = Some ws \<and> w \<in> set ws"
  by (fastforce simp: over_domains_def split: option.splits)

lemma over_domainsI:
  "(\<And>v. v \<in> set (variables c) \<Longrightarrow>
      \<exists>w ws. map_of A v = Some w \<and> map_of d v = Some ws \<and> w \<in> set ws) \<Longrightarrow>
   over_domains c A d"
  by (fastforce simp: over_domains_def)

lemma domain_keys_okD:
  "domain_keys_ok c d \<Longrightarrow> map_of d v = Some ws \<Longrightarrow> v \<in> set (variables c)"
  by (auto simp: domain_keys_ok_def dest!: map_of_SomeD intro: rev_image_eqI)

lemma solution_agree:
  assumes "solution c A" "map_of A x = Some wx" "map_of A y = Some wy"
    "overlaps c (x, y) = Some (Some (i, j))"
  shows "wx ! i = wy ! j"
proof -
  from assms(2,3) have "(x, wx) \<in> set A" "(y, wy) \<in> set A"
    by (auto dest: map_of_SomeD)
  with assms(1,4) show ?thesis
    by (fastforce simp: solution_def)
qed

lemma revise_keeps_solution:
  assumes rev: "revise c x y d = Inr (revision, d')"
    and sol: "solution c A" and over: "over_domains c A d" and keys: "domain_keys_ok c d"
  shows "over_domains c A d' \<and> domain_keys_ok c d'"
proof -
  from revise_Inr [OF rev] show ?thesis
  proof (elim disjE exE conjE)
    assume "d' = d"
    with over keys show ?thesis by simp
  next
    fix ov dx
    assume xy: "x \<noteq> y" and ov: "overlaps c (x, y) = Some (Some ov)"
      and dx: "map_of d x = Some dx"
      and d': "d' = AList.update x (filter (supported d y ov) dx) d"
    obtain i j where ij: "ov = (i, j)" by (cases ov)
    from dx have "x \<in> set (map fst d)" by (auto dest!: map_of_SomeD intro: rev_image_eqI)
    with keys d' have keys': "domain_keys_ok c d'"
      by (auto simp: domain_keys_ok_def update_keys simp del: set_map)
    have "over_domains c A d'"
    proof (rule over_domainsI)
      fix v assume v: "v \<in> set (variables c)"
      from over_domainsD [OF over v] obtain w ws where
        w: "map_of A v = Some w" "map_of d v = Some ws" "w \<in> set ws"
        by blast
      show "\<exists>w ws. map_of A v = Some w \<and> map_of d' v = Some ws \<and> w \<in> set ws"
      proof (cases "v = x")
        case False
        with w d' show ?thesis by (simp add: update_conv')
      next
        case True
        with w dx have wdx: "w \<in> set dx" and ne: "dx \<noteq> []" by auto
        from revise_lookup [OF rev xy ov dx ne] obtain dy where dy: "map_of d y = Some dy"
          by auto
        from domain_keys_okD [OF keys dy] have "y \<in> set (variables c)" .
        from over_domainsD [OF over this] dy obtain wy where
          wy: "map_of A y = Some wy" "wy \<in> set dy"
          by auto
        from w(1) True have "map_of A x = Some w" by simp
        from solution_agree [OF sol this wy(1) ov [unfolded ij]] have "w ! i = wy ! j" .
        with wy(2) dy ij have "supported d y ov w"
          by (auto simp: supported_def)
        with wdx w(1) True d' show ?thesis
          by (simp add: update_conv')
      qed
    qed
    with keys' show ?thesis by simp
  qed (use over keys in simp_all)
qed

lemma ac3_step_keeps_solution:
  assumes "ac3_step c var xy arcs d = Inr (r, arcs', d')"
    and "solution c A" and "over_domains c A d" and "domain_keys_ok c d"
  shows "over_domains c A d' \<and> domain_keys_ok c d'"
proof -
  from assms(1) obtain revision where "revise c (fst xy) (snd xy) d = Inr (revision, d')"
    by (auto simp: ac3_step_def split: sum.splits prod.splits if_splits option.splits)
  from revise_keeps_solution [OF this assms(2-4)] show ?thesis .
qed

lemma ac3_loop_keeps_solution:
  "ac3_loop c var arcs d = Inr (ok, d') \<Longrightarrow> solution c A \<Longrightarrow> over_domains c A d \<Longrightarrow>
   domain_keys_ok c d \<Longrightarrow> over_domains c A d' \<and> domain_keys_ok c d'"
proof (induction c var arcs d rule: ac3_loop.induct)
  case (1 c var d)
  then show ?case by simp
next
  case (2 c var xy arcs d)
  from "2.prems"(1) obtain r arcs1 d1 where
    step: "ac3_step c var xy arcs d = Inr (r, arcs1, d1)"
    by (auto split: sum.splits)
  note inv = ac3_step_keeps_solution [OF step "2.prems"(2-4)]
  show ?case
  proof (cases r)
    case (Some b)
    with step "2.prems"(1) have "d' = d1" by simp
    with inv show ?thesis by simp
  next
    case None
    with step "2.prems"(1) have "ac3_loop c var arcs1 d1 = Inr (ok, d')" by simp
    from "2.IH" [OF step refl None refl this "2.prems"(2)] inv show ?thesis by simp
  qed
qed

lemma revise_removes_unsupported:
  assumes rev: "revise c x y d = Inr (revision, d')" and v: "map_of d' v = Some ws'"
  shows "\<exists>ws. map_of d v = Some ws \<and> set ws' \<subseteq> set ws \<and>
           (\<forall>w \<in> set ws. w \<notin> set ws' \<longrightarrow>
              v = x \<and> (\<exists>i j dy. overlaps c (x, y) = Some (Some (i, j)) \<and>
                          map_of d y = Some dy \<and> (\<forall>w' \<in> set dy. w' ! j \<noteq> w ! i)))"
proof -
  from revise_Inr [OF rev] show ?thesis
  proof (elim disjE exE conjE)
    fix ov dx
    assume xy: "x \<noteq> y" and ov: "overlaps c (x, y) = Some (Some ov)"
      and dx: "map_of d x = Some dx"
      and d': "d' = AList.update x (filter (supported d y ov) dx) d"
    obtain i j where ij: "ov = (i, j)" by (cases ov)
    show ?thesis
    proof (cases "v = x")
      case False
      with v d' show ?thesis by (simp add: update_conv')
    next
      case True
      with v d' have ws': "ws' = filter (supported d y ov) dx"
        by (simp add: update_conv')
      have "\<exists>i j dy. overlaps c (x, y) = Some (Some (i, j)) \<and> map_of d y = Some dy \<and>
              (\<forall>w' \<in> set dy. w' ! j \<noteq> w ! i)"
        if w: "w \<in> set dx" "w \<notin> set ws'" for w
      proof -
        from w have "dx \<noteq> []" by auto
        from revise_lookup [OF rev xy ov dx this] obtain dy where dy: "map_of d y = Some dy"
          by auto
        from w ws' have "\<not> supported d y ov w" by simp
        with dy ij have "\<forall>w' \<in> set dy. w' ! j \<noteq> w ! i"
          by (simp add: supported_def)
        with ov ij dy show ?thesis by blast
      qed
      with True dx ws' show ?thesis by auto
    qed
  qed (use v in auto)
qed

lemma enforce_node_consistency_removes_wrong_length:
  assumes "enforce_node_consistency c d = Inr d1" and "map_of d1 v = Some ws1"
  shows "\<exists>ws. map_of d v = Some ws \<and> set ws1 \<subseteq> set ws \<and>
           (\<forall>w \<in> set ws. w \<notin> set ws1 \<longrightarrow> length w \<noteq> var_length v)"
proof -
  note m = enforce_node_consistency_loop_Inr
    [OF assms(1) [unfolded enforce_node_consistency_def], of v]
  show ?thesis
  proof (cases "map_of d v")
    case None
    with m assms(2) show ?thesis by (simp split: if_splits)
  next
    case (Some ws)
    with m assms(2) have "ws1 = ws \<or> ws1 = filter (\<lambda>w. length w = var_length v) ws"
      by (auto split: if_splits)
    with Some show ?thesis by auto
  qed
qed

lemma enforce_node_consistency_keeps_solution:
  assumes enf: "enforce_node_consistency c d = Inr d1"
    and sol: "solution c A" and over: "over_domains c A d" and keys: "domain_keys_ok c d"
  shows "over_domains c A d1 \<and> domain_keys_ok c d1"
proof -
  note m = enforce_node_consistency_loop_Inr [OF enf [unfolded enforce_node_consistency_def]]
  have "over_domains c A d1"
  proof (rule over_domainsI)
    fix v assume v: "v \<in> set (variables c)"
    from over_domainsD [OF over v] obtain w ws where
      w: "map_of A v = Some w" "map_of d v = Some ws" "w \<in> set ws"
      by blast
    from w(1) have "(v, w) \<in> set A" by (rule map_of_SomeD)
    with sol have "length w = var_length v" by (auto simp: solution_def)
    with w v m [of v]
    show "\<exists>w ws. map_of A v = Some w \<and> map_of d1 v = Some ws \<and> w \<in> set ws"
      by simp
  qed
  moreover have "domain_keys_ok c d1"
    unfolding domain_keys_ok_def
  proof
    fix v assume "v \<in> set (map fst d1)"
    then have "map_of d1 v \<noteq> None" by (simp add: map_of_eq_None_iff)
    with m [of v] have "map_of d v \<noteq> None" by (auto split: if_splits)
    then have "v \<in> set (map fst d)" by (simp add: map_of_eq_None_iff)
    with keys show "v \<in> set (variables c)" by (auto simp: domain_keys_ok_def)
  qed
  ultimately show ?thesis by simp
qed

text \<open>
  C4. Pruning is sound. A word that \<open>enforce_node_consistency\<close> removes from the domain
  of a variable has not the variable's length; a word that \<open>revise x y\<close> removes is a
  word of \<open>x\<close> with no word in the current domain of \<open>y\<close> that agrees with it at the overlap
  indices, and no other domain changes. So a solution over the initial domains is still a
  solution over the domains after \<open>enforce_node_consistency\<close>, and over the domains
  after \<open>ac3\<close>.
\<close>

theorem pruning_keeps_solutions:
  assumes enf: "enforce_node_consistency c (init_domains c) = Inr d1"
    and ac: "ac3 c None d1 = Inr (ok, d2)"
    and sol: "solution c A" and over: "over_domains c A (init_domains c)"
  shows "(\<forall>v ws1. map_of d1 v = Some ws1 \<longrightarrow>
            (\<exists>ws. map_of (init_domains c) v = Some ws \<and> set ws1 \<subseteq> set ws \<and>
               (\<forall>w \<in> set ws. w \<notin> set ws1 \<longrightarrow> length w \<noteq> var_length v))) \<and>
         (\<forall>x y d d' revision v ws'.
            revise c x y d = Inr (revision, d') \<and> map_of d' v = Some ws' \<longrightarrow>
            (\<exists>ws. map_of d v = Some ws \<and> set ws' \<subseteq> set ws \<and>
               (\<forall>w \<in> set ws. w \<notin> set ws' \<longrightarrow>
                  v = x \<and> (\<exists>i j dy. overlaps c (x, y) = Some (Some (i, j)) \<and>
                              map_of d y = Some dy \<and> (\<forall>w' \<in> set dy. w' ! j \<noteq> w ! i))))) \<and>
         over_domains c A d1 \<and> over_domains c A d2"
proof -
  have keys: "domain_keys_ok c (init_domains c)"
    by (simp add: domain_keys_ok_def init_domains_def comp_def)
  from enforce_node_consistency_keeps_solution [OF enf sol over keys]
  have o1: "over_domains c A d1" and k1: "domain_keys_ok c d1" by simp_all
  from ac have "ac3_loop c (loop_var c None) (initial_arcs c) d1 = Inr (ok, d2)"
    by (simp add: ac3_def)
  from ac3_loop_keeps_solution [OF this sol o1 k1] have o2: "over_domains c A d2"
    by simp
  have a: "\<forall>v ws1. map_of d1 v = Some ws1 \<longrightarrow>
            (\<exists>ws. map_of (init_domains c) v = Some ws \<and> set ws1 \<subseteq> set ws \<and>
               (\<forall>w \<in> set ws. w \<notin> set ws1 \<longrightarrow> length w \<noteq> var_length v))"
    using enforce_node_consistency_removes_wrong_length [OF enf] by blast
  have b: "\<forall>x y d d' revision v ws'.
            revise c x y d = Inr (revision, d') \<and> map_of d' v = Some ws' \<longrightarrow>
            (\<exists>ws. map_of d v = Some ws \<and> set ws' \<subseteq> set ws \<and>
               (\<forall>w \<in> set ws. w \<notin> set ws' \<longrightarrow>
                  v = x \<and> (\<exists>i j dy. overlaps c (x, y) = Some (Some (i, j)) \<and>
                              map_of d y = Some dy \<and> (\<forall>w' \<in> set dy. w' ! j \<noteq> w ! i))))"
    using revise_removes_unsupported by blast
  from a b o1 o2 show ?thesis by (intro conjI)
qed

lemma corner_solution:
  "solution (corner_crossword [slot_across, slot_down] ws)
     [(slot_across, ''AB''), (slot_down, ''AXX'')]"
  by (simp add: solution_def corner_crossword_def slots_distinct)
    (simp add: slot_across_def slot_down_def)

lemma corner_over_init_domains:
  "over_domains (corner_crossword [slot_across, slot_down] [''AB'', ''CD'', ''AXX'', ''EXX''])
     [(slot_across, ''AB''), (slot_down, ''AXX'')]
     (init_domains (corner_crossword [slot_across, slot_down] [''AB'', ''CD'', ''AXX'', ''EXX'']))"
  by (simp add: over_domains_def init_domains_def corner_crossword_def slots_distinct)

theorem pruning_keeps_solutions_witness:
  "enforce_node_consistency (corner_crossword [slot_across, slot_down] [''AB'', ''CD'', ''AXX'', ''EXX''])
     (init_domains (corner_crossword [slot_across, slot_down] [''AB'', ''CD'', ''AXX'', ''EXX'']))
   = Inr [(slot_across, [''AB'', ''CD'']), (slot_down, [''AXX'', ''EXX''])] \<and>
   ac3 (corner_crossword [slot_across, slot_down] [''AB'', ''CD'', ''AXX'', ''EXX'']) None
     [(slot_across, [''AB'', ''CD'']), (slot_down, [''AXX'', ''EXX''])]
   = Inr (True, [(slot_across, [''AB'']), (slot_down, [''AXX'', ''EXX''])]) \<and>
   solution (corner_crossword [slot_across, slot_down] [''AB'', ''CD'', ''AXX'', ''EXX''])
     [(slot_across, ''AB''), (slot_down, ''AXX'')] \<and>
   over_domains (corner_crossword [slot_across, slot_down] [''AB'', ''CD'', ''AXX'', ''EXX''])
     [(slot_across, ''AB''), (slot_down, ''AXX'')]
     (init_domains (corner_crossword [slot_across, slot_down] [''AB'', ''CD'', ''AXX'', ''EXX''])) \<and>
   over_domains (corner_crossword [slot_across, slot_down] [''AB'', ''CD'', ''AXX'', ''EXX''])
     [(slot_across, ''AB''), (slot_down, ''AXX'')]
     [(slot_across, [''AB'']), (slot_down, [''AXX'', ''EXX''])]"
proof -
  let ?c = "corner_crossword [slot_across, slot_down] [''AB'', ''CD'', ''AXX'', ''EXX'']"
  let ?A = "[(slot_across, ''AB''), (slot_down, ''AXX'')]"
  note enf = corner_node_consistency(1)
  note ac = corner_ac3
  have sol: "solution ?c ?A" by (rule corner_solution)
  have over: "over_domains ?c ?A (init_domains ?c)" by (rule corner_over_init_domains)
  from pruning_keeps_solutions [OF enf ac sol over]
  have "over_domains ?c ?A [(slot_across, [''AB'']), (slot_down, [''AXX'', ''EXX''])]"
    by blast
  with enf ac sol over show ?thesis by blast
qed

end
